theory Spec2Isabelle
  imports Complex_Main
begin

section \<open>Numbers and series\<close>

text \<open>
  A JavaScript \<open>number\<close> is modelled as a \<open>real\<close>: arithmetic is exact, the
  rounding of IEEE doubles is abstracted away. Where the source tests
  \<open>Number.isFinite\<close> on a value that may be \<open>NaN\<close> or infinite, that value has
  type \<open>num\<close>. \<open>null\<close> and \<open>undefined\<close> array entries are both \<open>None\<close>: every
  test of the source treats them alike.
\<close>

datatype num = Finite real | NaN | PosInf | NegInf

fun isFinite :: "num \<Rightarrow> bool" where
  "isFinite (Finite _) = True"
| "isFinite _ = False"

text \<open>\<open>Math.round\<close>: the nearest integer, ties towards plus infinity.\<close>

definition math_round :: "real \<Rightarrow> real" where
  "math_round x = of_int \<lfloor>x + 1 / 2\<rfloor>"

text \<open>\<open>Math.floor\<close>.\<close>

definition math_floor :: "real \<Rightarrow> real" where
  "math_floor x = of_int \<lfloor>x\<rfloor>"

text \<open>\<open>xs[i]\<close> of an array of \<open>number | null\<close>: out of range reads \<open>undefined\<close>.\<close>

definition nth_opt :: "'a option list \<Rightarrow> nat \<Rightarrow> 'a option" where
  "nth_opt xs i = (if i < length xs then xs ! i else None)"

text \<open>The type \<open>NezhaMonitor\<close>: one series per task.\<close>

record NezhaMonitor =
  monitor_id :: real
  monitor_name :: string
  server_id :: real
  server_name :: string
  created_at :: "real list"
  avg_delay :: "real option list"
  packet_loss :: "real list option"

section \<open>The sample interval\<close>

text \<open>
  \<open>getMedianValue\<close>: the source sorts a copy and reads the middle element, or the mean of
  the two middle ones. Every caller passes a non-empty array.
\<close>

definition getMedianValue :: "real list \<Rightarrow> real" where
  "getMedianValue values =
     (let sorted = sort values; mid = length sorted div 2
      in if length sorted mod 2 \<noteq> 0 then sorted ! mid
         else (sorted ! (mid - 1) + sorted ! mid) / 2)"

definition DEFAULT_INTERVAL_MS :: real where
  "DEFAULT_INTERVAL_MS = 60 * 1000"

text \<open>The loop \<open>for (i = 1; i < times.length; i++)\<close> of \<open>getTypicalIntervalMs\<close>.\<close>

fun pushDeltas :: "real list \<Rightarrow> real list" where
  "pushDeltas (a # b # ts) = (if b - a > 0 then [b - a] else []) @ pushDeltas (b # ts)"
| "pushDeltas _ = []"

definition getTypicalIntervalMs :: "NezhaMonitor list \<Rightarrow> real" where
  "getTypicalIntervalMs data =
     (let deltas = concat (map (\<lambda>item. pushDeltas (created_at item)) data)
      in if length deltas = 0 then DEFAULT_INTERVAL_MS
         else let median = getMedianValue deltas;
                  rounded = math_round (median / 1000) * 1000
              in max 1000 (if rounded \<noteq> 0 then rounded else median))"

section \<open>Offline spans and the timeline\<close>

record OfflineSpan =
  span_start :: real
  span_end :: real

definition OFFLINE_GAP_MULTIPLIER :: real where
  "OFFLINE_GAP_MULTIPLIER = 1.5"

text \<open>The loop over consecutive sorted times of \<open>buildOfflineSpans\<close>.\<close>

fun internalSpans :: "real list \<Rightarrow> real \<Rightarrow> real \<Rightarrow> real \<Rightarrow> OfflineSpan list" where
  "internalSpans (prev # next # ts) rangeEnd intervalMs threshold =
     (if next - prev > threshold
      then (let spanStart = prev + intervalMs; spanEnd = min next rangeEnd
            in if spanStart < spanEnd
               then [\<lparr>span_start = spanStart, span_end = spanEnd\<rparr>] else [])
      else [])
     @ internalSpans (next # ts) rangeEnd intervalMs threshold"
| "internalSpans _ rangeEnd intervalMs threshold = []"

text \<open>
  \<open>buildOfflineSpans\<close>. Both range ends are reals here, so the two
  \<open>Number.isFinite\<close> tests of the guard hold.
\<close>

definition buildOfflineSpans :: "real list \<Rightarrow> real \<Rightarrow> real \<Rightarrow> real \<Rightarrow> OfflineSpan list" where
  "buildOfflineSpans observedTimes rangeStart rangeEnd intervalMs =
     (if rangeStart \<ge> rangeEnd \<or> intervalMs \<le> 0 then []
      else if length observedTimes = 0
      then [\<lparr>span_start = rangeStart, span_end = rangeEnd\<rparr>]
      else let threshold = intervalMs * OFFLINE_GAP_MULTIPLIER;
               sortedTimes = sort observedTimes;
               firstTime = hd sortedTimes;
               lastTime = last sortedTimes
           in (if firstTime - rangeStart > threshold
               then [\<lparr>span_start = rangeStart, span_end = firstTime\<rparr>] else [])
              @ internalSpans sortedTimes rangeEnd intervalMs threshold
              @ (if rangeEnd - lastTime > threshold
                 then (let spanStart = lastTime + intervalMs
                       in if spanStart < rangeEnd
                          then [\<lparr>span_start = spanStart, span_end = rangeEnd\<rparr>] else [])
                 else []))"

text \<open>
  The loop \<open>for (t = span.start; t < span.end; t += intervalMs)\<close>. The source enters it
  only with a positive step; the test on the step is repeated here so that the
  recursion is total.
\<close>

function spanPoints :: "real \<Rightarrow> real \<Rightarrow> real \<Rightarrow> real list" where
  "spanPoints t e intervalMs =
     (if intervalMs > 0 \<and> t < e then t # spanPoints (t + intervalMs) e intervalMs else [])"
  by pat_completeness auto
termination
proof (relation "measure (\<lambda>(t, e, i). nat \<lceil>(e - t) / i\<rceil>)")
  show "wf (measure (\<lambda>(t, e, i). nat \<lceil>(e - t) / i\<rceil>))" by simp
next
  fix t e i :: real
  assume a: "0 < i \<and> t < e"
  then have "(e - (t + i)) / i = (e - t) / i - 1"
    by (simp add: field_simps)
  then have c: "\<lceil>(e - (t + i)) / i\<rceil> = \<lceil>(e - t) / i\<rceil> - 1"
    by simp
  from a have "0 < (e - t) / i" by simp
  then have "0 < \<lceil>(e - t) / i\<rceil>" by simp
  with c show "((t + i, e, i), (t, e, i)) \<in> measure (\<lambda>(t, e, i). nat \<lceil>(e - t) / i\<rceil>)"
    by simp
qed

declare spanPoints.simps [simp del]

definition buildOfflinePoints :: "OfflineSpan list \<Rightarrow> real \<Rightarrow> real list" where
  "buildOfflinePoints spans intervalMs =
     (if intervalMs \<le> 0 then []
      else concat (map (\<lambda>span. spanPoints (span_start span) (span_end span) intervalMs) spans))"

text \<open>
  A JavaScript \<open>Set\<close> of numbers is a duplicate-free list in insertion order;
  \<open>set_add\<close> is \<open>Set.prototype.add\<close>, \<open>new Set(xs)\<close> adds the elements in turn.
\<close>

definition set_add :: "real list \<Rightarrow> real \<Rightarrow> real list" where
  "set_add s x = (if x \<in> set s then s else s @ [x])"

definition new_Set :: "real list \<Rightarrow> real list" where
  "new_Set xs = fold (\<lambda>x s. set_add s x) xs []"

record TimelineData =
  timeline :: "real list"
  offlineSpans :: "OfflineSpan list"
  observedSet :: "real list"
  intervalMs :: real

definition collectObserved :: "NezhaMonitor list \<Rightarrow> real \<Rightarrow> real \<Rightarrow> real list" where
  "collectObserved rawData rangeStart rangeEnd =
     fold (\<lambda>item s.
        fold (\<lambda>time s. if time \<ge> rangeStart \<and> time \<le> rangeEnd then set_add s time else s)
          (created_at item) s)
       rawData []"

definition buildTimelineData :: "NezhaMonitor list \<Rightarrow> real \<Rightarrow> real \<Rightarrow> TimelineData" where
  "buildTimelineData rawData rangeStart rangeEnd =
     (let observed = collectObserved rawData rangeStart rangeEnd;
          observedTimes = sort observed;
          interval = getTypicalIntervalMs rawData;
          spans = buildOfflineSpans observedTimes rangeStart rangeEnd interval;
          offlinePoints = buildOfflinePoints spans interval;
          timelineSet = fold (\<lambda>time s. set_add s time) offlinePoints (new_Set observedTimes)
      in \<lparr>timeline = sort timelineSet, offlineSpans = spans,
          observedSet = observed, intervalMs = interval\<rparr>)"

section \<open>The packet-loss estimate\<close>

text \<open>
  \<open>Number(rate.toFixed(2))\<close>: two decimals, the nearer one, ties away from zero
  (\<open>toFixed\<close> rounds the magnitude and puts the sign back).
\<close>

definition toFixed2 :: "real \<Rightarrow> real" where
  "toFixed2 x = (if x < 0 then - (of_int \<lfloor>- x * 100 + 1 / 2\<rfloor> / 100)
                 else of_int \<lfloor>x * 100 + 1 / 2\<rfloor> / 100)"

text \<open>
  The value of \<open>lossRate\<close> in the body of the loop of \<open>calculatePacketLoss\<close> before the
  smoothing step, at index \<open>i\<close>. \<open>windowSize\<close> is a whole number, so
  \<open>Math.floor(windowSize / 2)\<close> and \<open>Math.ceil(windowSize / 2)\<close> are written with
  \<open>div\<close>; subtraction on \<open>nat\<close> stops at 0, which is the \<open>Math.max(0, ...)\<close> of the
  source.
\<close>

definition rawLossRate :: "real option list \<Rightarrow> nat \<Rightarrow> real" where
  "rawLossRate delays i =
     (let windowSize = min 10 (max 3 (length delays div 10));
          timeoutThreshold = 3000;
          extremeDelayThreshold = 10000
      in case nth_opt delays i of
           None \<Rightarrow> 100
         | Some currentDelay \<Rightarrow>
             if currentDelay = 0 then 100
             else if currentDelay \<ge> extremeDelayThreshold
             then min 95 (60 + (currentDelay - extremeDelayThreshold) / 1000)
             else if currentDelay \<ge> timeoutThreshold
             then min 50 ((currentDelay - timeoutThreshold) / 200)
             else
               let start = max 0 (i - windowSize div 2);
                   end_ix = min (length delays) (i + (windowSize + 1) div 2);
                   windowDelays =
                     concat (map (\<lambda>d. case d of None \<Rightarrow> [] | Some v \<Rightarrow> if v > 0 then [v] else [])
                       (take (end_ix - start) (drop start delays)))
               in if length windowDelays > 2
                  then
                    let mean = sum_list windowDelays / real (length windowDelays);
                        variance = sum_list (map (\<lambda>d. (d - mean) ^ 2) windowDelays)
                                     / real (length windowDelays);
                        standardDeviation = sqrt variance;
                        coefficientOfVariation = standardDeviation / mean;
                        lossRate =
                          (if coefficientOfVariation > 0.8 then min 25 (coefficientOfVariation * 15)
                           else if coefficientOfVariation > 0.5 then min 10 (coefficientOfVariation * 8)
                           else if coefficientOfVariation > 0.3 then min 5 (coefficientOfVariation * 5)
                           else 0)
                    in if currentDelay > mean * 2.5
                       then lossRate + min 15 ((currentDelay / mean - 2.5) * 10)
                       else lossRate
                  else 0)"

text \<open>One turn of the loop: smooth against the previous entry, clamp, push.\<close>

definition lossStep :: "real option list \<Rightarrow> nat \<Rightarrow> real list \<Rightarrow> real list" where
  "lossStep delays i packetLossRates =
     (let lossRate = rawLossRate delays i;
          alpha = 0.3;
          lossRate = (if i > 0 then alpha * lossRate + (1 - alpha) * (packetLossRates ! (i - 1))
                      else lossRate)
      in packetLossRates @ [max 0 (min 100 lossRate)])"

text \<open>The array \<open>packetLossRates\<close> when the loop ends, before the final \<open>map\<close>.\<close>

definition packetLossRates :: "real option list \<Rightarrow> real list" where
  "packetLossRates delays = fold (lossStep delays) [0 ..< length delays] []"

definition calculatePacketLoss :: "real option list \<Rightarrow> real list" where
  "calculatePacketLoss delays =
     (if length delays = 0 then [] else map toFixed2 (packetLossRates delays))"

section \<open>The formatter\<close>

text \<open>
  A \<open>ResultItem\<close> is an object from keys to \<open>number | null\<close>: a key that is absent maps
  to \<open>None\<close>, a key holding \<open>null\<close> to \<open>Some None\<close>. The object \<open>result\<close>, keyed by
  time, is an association list in insertion order.
\<close>

type_synonym ResultItem = "string \<rightharpoonup> real option"

definition OFFLINE_KEY :: string where
  "OFFLINE_KEY = ''__offline__''"

definition packet_loss_key :: "string \<Rightarrow> string" where
  "packet_loss_key name = name @ ''_packet_loss''"

fun obj_set :: "(real \<times> 'v) list \<Rightarrow> real \<Rightarrow> 'v \<Rightarrow> (real \<times> 'v) list" where
  "obj_set [] k v = [(k, v)]"
| "obj_set ((k', v') # r) k v = (if k' = k then (k, v) # r else (k', v') # obj_set r k v)"

definition newRow :: "real \<Rightarrow> real list \<Rightarrow> ResultItem" where
  "newRow time observed =
     [''created_at'' \<mapsto> Some time,
      OFFLINE_KEY \<mapsto> (if time \<in> set observed then None else Some 1)]"

text \<open>The loop \<open>for (i = 0; i < created_at.length; i++)\<close>: the two maps and the valid points.\<close>

definition valueMap :: "NezhaMonitor \<Rightarrow> (real \<rightharpoonup> real option)" where
  "valueMap item =
     fold (\<lambda>i m. m(created_at item ! i \<mapsto> nth_opt (avg_delay item) i))
       [0 ..< length (created_at item)] Map.empty"

definition packetLossOf :: "NezhaMonitor \<Rightarrow> real list" where
  "packetLossOf item =
     (case packet_loss item of Some pl \<Rightarrow> pl | None \<Rightarrow> calculatePacketLoss (avg_delay item))"

definition packetLossMap :: "NezhaMonitor \<Rightarrow> (real \<rightharpoonup> real option)" where
  "packetLossMap item =
     fold (\<lambda>i m. m(created_at item ! i \<mapsto>
                      (if i < length (packetLossOf item) then Some (packetLossOf item ! i) else None)))
       [0 ..< length (created_at item)] Map.empty"

definition validPoints :: "NezhaMonitor \<Rightarrow> (real \<times> real) list" where
  "validPoints item =
     concat (map (\<lambda>i. case nth_opt (avg_delay item) i of
                         None \<Rightarrow> [] | Some v \<Rightarrow> [(created_at item ! i, v)])
       [0 ..< length (created_at item)])"

text \<open>
  The loop \<open>while (nextIndex < validPoints.length && validPoints[nextIndex].time < time)\<close>
  on the cursor \<open>(nextIndex, prevPoint)\<close>, which is kept from one timestamp to the next.
\<close>

function advance ::
  "(real \<times> real) list \<Rightarrow> real \<Rightarrow> nat \<times> (real \<times> real) option \<Rightarrow> nat \<times> (real \<times> real) option"
where
  "advance points time (nextIndex, prevPoint) =
     (if nextIndex < length points \<and> fst (points ! nextIndex) < time
      then advance points time (nextIndex + 1, Some (points ! nextIndex))
      else (nextIndex, prevPoint))"
  by pat_completeness auto
termination
  by (relation "measure (\<lambda>(points, time, nextIndex, prevPoint). length points - nextIndex)") auto

declare advance.simps [simp del]

text \<open>The value written for a timestamp that is neither offline nor a sample.\<close>

definition interpolate ::
  "(real \<times> real) option \<Rightarrow> (real \<times> real) option \<Rightarrow> real \<Rightarrow> real \<Rightarrow> real option" where
  "interpolate prevPoint nextPoint interval time =
     (case (prevPoint, nextPoint) of
        (Some p, Some n) \<Rightarrow>
          if interval > 0 \<and> fst n - fst p \<le> interval * OFFLINE_GAP_MULTIPLIER
          then (let ratio = (time - fst p) / (fst n - fst p)
                in Some (snd p + ratio * (snd n - snd p)))
          else None
      | _ \<Rightarrow> None)"

text \<open>
  The body of the inner \<open>timeline.forEach\<close>, on the state \<open>(result, nextIndex, prevPoint)\<close>.
  \<open>packetLoss\<close> is an array, hence truthy, so its key is always written.
\<close>

definition seriesStep ::
  "NezhaMonitor \<Rightarrow> real list \<Rightarrow> real \<Rightarrow> real \<Rightarrow>
   (real \<times> ResultItem) list \<times> nat \<times> (real \<times> real) option \<Rightarrow>
   (real \<times> ResultItem) list \<times> nat \<times> (real \<times> real) option" where
  "seriesStep item observed interval time st =
     (case st of (result, cursor) \<Rightarrow>
        let name = monitor_name item;
            row = (case map_of result time of None \<Rightarrow> newRow time observed | Some r \<Rightarrow> r);
            isOffline = (row OFFLINE_KEY \<noteq> Some None)
        in if isOffline
           then (obj_set result time (row(name \<mapsto> None, packet_loss_key name \<mapsto> None)), cursor)
           else if time \<in> set (created_at item)
           then (obj_set result time
                   (row(name \<mapsto> (case valueMap item time of None \<Rightarrow> None | Some v \<Rightarrow> v),
                        packet_loss_key name \<mapsto>
                          (case packetLossMap item time of None \<Rightarrow> None | Some v \<Rightarrow> v))),
                 cursor)
           else
             let cursor' = advance (validPoints item) time cursor;
                 nextPoint = (if fst cursor' < length (validPoints item)
                              then Some (validPoints item ! fst cursor') else None)
             in (obj_set result time
                   (row(name \<mapsto> interpolate (snd cursor') nextPoint interval time,
                        packet_loss_key name \<mapsto> None)),
                 cursor'))"

text \<open>The body of \<open>rawData.forEach\<close>.\<close>

definition formatSeries ::
  "NezhaMonitor \<Rightarrow> real list \<Rightarrow> real list \<Rightarrow> real \<Rightarrow>
   (real \<times> ResultItem) list \<Rightarrow> (real \<times> ResultItem) list" where
  "formatSeries item tline observed interval result =
     fst (fold (seriesStep item observed interval) tline (result, 0, None))"

text \<open>
  \<open>formatData\<close>. The rows are sorted by \<open>created_at\<close> at the end (a \<open>null\<close> there
  counts as 0 in the comparator), so the order in which \<open>Object.values\<close> lists them
  is kept only among rows of equal \<open>created_at\<close>.
\<close>

definition row_time :: "ResultItem \<Rightarrow> real" where
  "row_time row = (case row ''created_at'' of Some (Some t) \<Rightarrow> t | _ \<Rightarrow> 0)"

definition formatData ::
  "NezhaMonitor list \<Rightarrow> real list \<Rightarrow> real list \<Rightarrow> real \<Rightarrow> ResultItem list" where
  "formatData rawData tline observed interval =
     (let result0 = fold (\<lambda>time r. obj_set r time (newRow time observed)) tline [];
          result = fold (\<lambda>item r. formatSeries item tline observed interval r) rawData result0
      in sort_key row_time (map snd result))"

section \<open>The peak-cut filter\<close>

text \<open>\<open>getMedian\<close> of \<open>processedData\<close>; its callers pass non-empty arrays.\<close>

definition getMedian :: "real list \<Rightarrow> real" where
  "getMedian arr =
     (let sorted = sort arr; mid = length sorted div 2
      in if length sorted mod 2 \<noteq> 0 then sorted ! mid
         else (sorted ! (mid - 1) + sorted ! mid) / 2)"

definition alpha :: real where
  "alpha = 0.3"

text \<open>\<open>processValues\<close>: \<open>None\<close> is the \<open>null\<close> returned for an empty array.\<close>

definition processValues :: "real list \<Rightarrow> real option" where
  "processValues values =
     (if length values = 0 then None
      else let median = getMedian values;
               deviations = map (\<lambda>v. \<bar>v - median\<bar>) values;
               medianDeviation = getMedian deviations * 1.4826;
               validValues = filter (\<lambda>v. \<bar>v - median\<bar> \<le> 3 * medianDeviation \<and> v \<le> median * 3) values
           in if length validValues = 0 then Some median
              else Some (fold (\<lambda>v ewma. alpha * v + (1 - alpha) * ewma)
                           (tl validValues) (hd validValues)))"

text \<open>
  What the filter does for one key of one row, on the state \<open>(smoothed, ewmaHistory)\<close>.
  With a single selected chart the key is \<open>avg_delay\<close>, and the source runs the same
  statements on it.
\<close>

definition smoothKey ::
  "ResultItem list \<Rightarrow> string \<Rightarrow> ResultItem \<times> (string \<rightharpoonup> real) \<Rightarrow> ResultItem \<times> (string \<rightharpoonup> real)" where
  "smoothKey window key st =
     (case st of (smoothed, ewmaHistory) \<Rightarrow>
        let values = concat (map (\<lambda>w. case w key of Some (Some v) \<Rightarrow> [v] | _ \<Rightarrow> []) window)
        in if length values > 0
           then (case processValues values of
                   None \<Rightarrow> (smoothed, ewmaHistory)
                 | Some processed \<Rightarrow>
                     let h = (case ewmaHistory key of
                                None \<Rightarrow> processed
                              | Some old \<Rightarrow> alpha * processed + (1 - alpha) * old)
                     in (smoothed(key \<mapsto> Some h), ewmaHistory(key \<mapsto> h)))
           else (smoothed, ewmaHistory))"

definition windowSize :: nat where
  "windowSize = 11"

text \<open>The callback of \<open>data.map\<close>, on the state \<open>(rows so far, ewmaHistory)\<close>.\<close>

definition peakStep ::
  "string list \<Rightarrow> ResultItem list \<Rightarrow> nat \<Rightarrow> ResultItem list \<times> (string \<rightharpoonup> real) \<Rightarrow>
   ResultItem list \<times> (string \<rightharpoonup> real)" where
  "peakStep keysToProcess rows index st =
     (case st of (out, ewmaHistory) \<Rightarrow>
        let point = rows ! index
        in if index < windowSize - 1 then (out @ [point], ewmaHistory)
           else let window = take windowSize (drop (index + 1 - windowSize) rows);
                    r = fold (smoothKey window) keysToProcess (point, ewmaHistory)
                in (out @ [fst r], snd r))"

definition peakCut :: "string list \<Rightarrow> ResultItem list \<Rightarrow> ResultItem list" where
  "peakCut keysToProcess rows =
     fst (fold (peakStep keysToProcess rows) [0 ..< length rows] ([], Map.empty))"

text \<open>\<open>item[key] ?? null\<close>.\<close>

definition or_null :: "real option option \<Rightarrow> real option" where
  "or_null v = (case v of None \<Rightarrow> None | Some x \<Rightarrow> x)"

definition processedData ::
  "ResultItem list \<Rightarrow> string list \<Rightarrow> string list \<Rightarrow> bool \<Rightarrow> ResultItem list" where
  "processedData formattedData activeCharts chartDataKey isPeakEnabled =
     (let baseData =
            (if length activeCharts = 1
             then (let selectedChart = activeCharts ! 0
                   in map (\<lambda>item.
                        (Map.empty(''created_at'' := item ''created_at''))
                          (''avg_delay'' \<mapsto> or_null (item selectedChart),
                           ''packet_loss'' \<mapsto> or_null (item (packet_loss_key selectedChart)),
                           OFFLINE_KEY \<mapsto> or_null (item OFFLINE_KEY)))
                        formattedData)
             else formattedData)
      in if \<not> isPeakEnabled then baseData
         else peakCut
                (if length activeCharts = 1 then [''avg_delay'']
                 else if length activeCharts > 0 then activeCharts else chartDataKey)
                baseData)"

section \<open>The display range\<close>

text \<open>The comparisons \<open><\<close> and \<open>>=\<close> of JavaScript numbers; with \<open>NaN\<close> both are false.\<close>

fun num_lt :: "num \<Rightarrow> num \<Rightarrow> bool" where
  "num_lt (Finite a) (Finite b) = (a < b)"
| "num_lt NegInf (Finite b) = True"
| "num_lt NegInf PosInf = True"
| "num_lt (Finite a) PosInf = True"
| "num_lt _ _ = False"

fun num_ge :: "num \<Rightarrow> num \<Rightarrow> bool" where
  "num_ge NaN _ = False"
| "num_ge _ NaN = False"
| "num_ge a b = (\<not> num_lt a b)"

text \<open>The two nested \<open>forEach\<close> that compute \<open>minTime\<close> and \<open>maxTime\<close>.\<close>

definition observedMinMax :: "NezhaMonitor list \<Rightarrow> num \<times> num" where
  "observedMinMax ms =
     fold (\<lambda>item acc.
        fold (\<lambda>time (minTime, maxTime).
                (if num_lt (Finite time) minTime then Finite time else minTime,
                 if num_lt maxTime (Finite time) then Finite time else maxTime))
          (created_at item) acc)
       ms (PosInf, NegInf)"

text \<open>
  \<open>getTimeRange\<close>. \<open>Date.parse\<close> and \<open>Date.now()\<close> are parameters; an absent \<open>from\<close> or
  \<open>to\<close> is \<open>None\<close>.
\<close>

definition getTimeRange ::
  "(string \<Rightarrow> num) \<Rightarrow> real \<Rightarrow> NezhaMonitor list \<Rightarrow> real \<Rightarrow> string option \<Rightarrow> string option
   \<Rightarrow> num \<times> num" where
  "getTimeRange parse now ms rangeHours from to =
     (let parsedFrom = (case from of Some s \<Rightarrow> parse s | None \<Rightarrow> NaN);
          parsedTo = (case to of Some s \<Rightarrow> parse s | None \<Rightarrow> NaN);
          rangeStart = (if isFinite parsedFrom then parsedFrom else NaN);
          rangeEnd = (if isFinite parsedTo then parsedTo else NaN);
          r1 = (if \<not> isFinite rangeStart \<or> \<not> isFinite rangeEnd \<or> num_ge rangeStart rangeEnd
                then (case observedMinMax ms of (minTime, maxTime) \<Rightarrow>
                        (if \<not> isFinite rangeStart \<and> isFinite minTime then minTime else rangeStart,
                         if \<not> isFinite rangeEnd \<and> isFinite maxTime then maxTime else rangeEnd))
                else (rangeStart, rangeEnd))
      in case r1 of (rangeStart, rangeEnd) \<Rightarrow>
           if \<not> isFinite rangeStart \<or> \<not> isFinite rangeEnd \<or> num_ge rangeStart rangeEnd
           then (let safeHours = max 1 (math_floor rangeHours);
                     rangeEnd = now;
                     rangeStart = rangeEnd - safeHours * 60 * 60 * 1000
                 in (Finite rangeStart, Finite rangeEnd))
           else (rangeStart, rangeEnd))"

section \<open>Fetching and assembling the series\<close>

text \<open>
  What \<open>fetchMonitor\<close> takes from outside the repository's sources: \<open>uuidToNumber\<close>
  (imported from a file that is not among them), \<open>Date.parse\<close>, \<open>Date.now()\<close> and the
  conversion of a number to a string.
\<close>

record env =
  uuidToNumber :: "string \<Rightarrow> real"
  date_parse :: "string \<Rightarrow> num"
  date_now :: real
  num_to_string :: "real \<Rightarrow> string"

text \<open>
  The type \<open>MonitorRecord\<close>; an absent field is \<open>None\<close>. The field \<open>value\<close> is
  \<open>val\<close> here, a number as the type declares it; \<open>Number(rec.value)\<close> of an absent
  value is \<open>NaN\<close>. A task of the task list has the fields \<open>id\<close> and \<open>name\<close>.
\<close>

record MonitorRecord =
  task_id :: "real option"
  time :: "string option"
  val :: "num option"
  name :: "string option"

record task =
  task_ident :: real
  task_name :: string

text \<open>
  The answer of \<open>common:getRecords\<close>: an object with an \<open>error\<close>, one of the three
  accepted shapes, or anything else.
\<close>

datatype payload =
  ErrorPayload string
| TasksAndRecords "task list" "MonitorRecord list"
| RecordsOnly "MonitorRecord list"
| BareRecords "MonitorRecord list"
| UnknownPayload

text \<open>The answer of \<open>getKomariNodes\<close>: an error, or the nodes' names by uuid.\<close>

datatype nodes = NodesError string | Nodes "(string \<times> string option) list"

datatype rpc_call = GetRecords string real real

record MonitorResponse =
  success :: bool
  data :: "NezhaMonitor list"

text \<open>\<open>seriesByTask\<close> is a \<open>Map\<close>: an association list in insertion order.\<close>

definition ensureSeries ::
  "real \<Rightarrow> string \<Rightarrow> real \<Rightarrow> string \<Rightarrow> (real \<times> NezhaMonitor) list \<Rightarrow> (real \<times> NezhaMonitor) list" where
  "ensureSeries sid serverName ident nm seriesByTask =
     (if map_of seriesByTask ident = None
      then seriesByTask @
             [(ident, \<lparr>monitor_id = ident, monitor_name = nm, server_id = sid,
                       server_name = serverName, created_at = [], avg_delay = [],
                       packet_loss = None\<rparr>)]
      else seriesByTask)"

definition record_id :: "MonitorRecord \<Rightarrow> real" where
  "record_id r = (case task_id r of Some n \<Rightarrow> n | None \<Rightarrow> 0)"

definition record_ts :: "env \<Rightarrow> MonitorRecord \<Rightarrow> num" where
  "record_ts e r = date_parse e (case time r of Some s \<Rightarrow> s | None \<Rightarrow> [])"

definition record_val :: "MonitorRecord \<Rightarrow> num" where
  "record_val r = (case val r of Some v \<Rightarrow> v | None \<Rightarrow> NaN)"

definition push_point :: "real \<Rightarrow> real \<Rightarrow> NezhaMonitor \<Rightarrow> NezhaMonitor" where
  "push_point ts v s =
     s\<lparr>created_at := created_at s @ [ts],
       avg_delay := avg_delay s @ [if v = - 1 then None else Some v]\<rparr>"

definition appendRecord ::
  "env \<Rightarrow> real \<Rightarrow> string \<Rightarrow> MonitorRecord \<Rightarrow> (real \<times> NezhaMonitor) list \<Rightarrow> (real \<times> NezhaMonitor) list" where
  "appendRecord e sid serverName r seriesByTask =
     (let ident = record_id r;
          nm = (case name r of Some n \<Rightarrow> n | None \<Rightarrow> ''task_'' @ num_to_string e ident);
          m = ensureSeries sid serverName ident nm seriesByTask
      in case record_ts e r of
           Finite ts \<Rightarrow>
             (case record_val r of
                Finite v \<Rightarrow> map (\<lambda>(k, s). if k = ident then (k, push_point ts v s) else (k, s)) m
              | _ \<Rightarrow> m)
         | _ \<Rightarrow> m)"

text \<open>The three shapes, first match first.\<close>

fun collectSeries :: "env \<Rightarrow> real \<Rightarrow> string \<Rightarrow> payload \<Rightarrow> (real \<times> NezhaMonitor) list" where
  "collectSeries e sid serverName (TasksAndRecords tasks records) =
     fold (appendRecord e sid serverName) records
       (fold (\<lambda>t m. ensureSeries sid serverName (task_ident t) (task_name t) m) tasks [])"
| "collectSeries e sid serverName (RecordsOnly records) =
     fold (appendRecord e sid serverName) records []"
| "collectSeries e sid serverName (BareRecords records) =
     fold (appendRecord e sid serverName) records []"
| "collectSeries e sid serverName _ = []"

text \<open>Sorting one series by time (the sort of the source is stable), then padding it.\<close>

definition sortSeries :: "NezhaMonitor \<Rightarrow> NezhaMonitor" where
  "sortSeries s =
     (let zip = map (\<lambda>i. (created_at s ! i, nth_opt (avg_delay s) i)) [0 ..< length (created_at s)];
          zip = sort_key fst zip
      in s\<lparr>created_at := map fst zip, avg_delay := map snd zip\<rparr>)"

definition padSeries :: "env \<Rightarrow> NezhaMonitor \<Rightarrow> NezhaMonitor" where
  "padSeries e s =
     (if length (avg_delay s) = 0 then s\<lparr>avg_delay := [None], created_at := [date_now e]\<rparr>
      else s)"

text \<open>
  \<open>fetchMonitor\<close>: the value returned or the error thrown (\<open>Inl\<close>), and the requests
  for records sent on the way. \<open>getRecords\<close> answers such a request.
\<close>

definition fetchMonitor ::
  "env \<Rightarrow> nodes \<Rightarrow> (rpc_call \<Rightarrow> payload) \<Rightarrow> real \<Rightarrow> real \<Rightarrow> (string + MonitorResponse) \<times> rpc_call list" where
  "fetchMonitor e km_nodes getRecords sid hours =
     (case km_nodes of
        NodesError msg \<Rightarrow> (Inl msg, [])
      | Nodes ns \<Rightarrow>
          (case find (\<lambda>k. uuidToNumber e k = sid) (map fst ns) of
             None \<Rightarrow> (Inr \<lparr>success = True, data = []\<rparr>, [])
           | Some uuid \<Rightarrow>
               if uuid = [] then (Inr \<lparr>success = True, data = []\<rparr>, [])
               else
                 let serverName = (case map_of ns uuid of
                                     Some (Some n) \<Rightarrow> if n = [] then num_to_string e sid else n
                                   | _ \<Rightarrow> num_to_string e sid);
                     safeHours = max 1 (math_floor hours);
                     call = GetRecords uuid 4000 safeHours;
                     km_monitors = getRecords call
                 in (case km_monitors of
                       ErrorPayload msg \<Rightarrow> (Inl msg, [call])
                     | _ \<Rightarrow>
                         (Inr \<lparr>success = True,
                               data = map (padSeries e \<circ> sortSeries \<circ> snd)
                                        (collectSeries e sid serverName km_monitors)\<rparr>,
                          [call]))))"

section \<open>Specification-level definitions and named inputs\<close>

text \<open>
  A median of a list: at least half of the elements are not above it and at least half
  are not below it. The positive differences of consecutive timestamps of one series.
  The sample interval as the specification words it: the median of all these
  differences, rounded to the second, at least one second, and one minute when there is
  none.
\<close>

definition is_median :: "real \<Rightarrow> real list \<Rightarrow> bool" where
  "is_median m xs =
     (length xs \<le> 2 * length (filter (\<lambda>x. x \<le> m) xs) \<and>
      length xs \<le> 2 * length (filter (\<lambda>x. m \<le> x) xs))"

definition positive_deltas :: "real list \<Rightarrow> real list" where
  "positive_deltas ts = filter (\<lambda>d. d > 0) (map (\<lambda>(a, b). b - a) (zip ts (tl ts)))"

definition interval_spec :: "NezhaMonitor list \<Rightarrow> real" where
  "interval_spec ms =
     (let ds = concat (map (\<lambda>item. positive_deltas (created_at item)) ms)
      in if ds = [] then 60000
         else max 1000 (math_round (getMedianValue ds / 1000) * 1000))"

text \<open>The series of the scenario: samples at 0, 60000 and 300000.\<close>

definition scenario_series :: NezhaMonitor where
  "scenario_series =
     \<lparr>monitor_id = 1, monitor_name = ''m'', server_id = 1, server_name = ''s'',
      created_at = [0, 60000, 300000], avg_delay = [Some 10, Some 20, Some 30],
      packet_loss = None\<rparr>"

text \<open>An environment for concrete runs: a uuid's number is its length, as is a date's.\<close>

definition demo_env :: env where
  "demo_env =
     \<lparr>uuidToNumber = (\<lambda>k. real (length k)),
      date_parse = (\<lambda>s. if s = [] then NaN else Finite (real (length s))),
      date_now = 99, num_to_string = (\<lambda>n. ''n'')\<rparr>"

text \<open>
  The points held for a task in \<open>seriesByTask\<close>: the timestamps and the values of
  its series, none when the task has no series.
\<close>

definition series_points :: "(real \<times> NezhaMonitor) list \<Rightarrow> real \<Rightarrow> real list \<times> real option list" where
  "series_points m ident =
     (case map_of m ident of None \<Rightarrow> ([], []) | Some s \<Rightarrow> (created_at s, avg_delay s))"

text \<open>Two records of one task with the same time, and a record of a lost probe.\<close>

definition twin_records :: "MonitorRecord list" where
  "twin_records =
     [\<lparr>task_id = Some 1, time = Some ''xy'', val = Some (Finite 5), name = Some ''t''\<rparr>,
      \<lparr>task_id = Some 1, time = Some ''zw'', val = Some (Finite 7), name = Some ''t''\<rparr>]"

definition lost_record :: MonitorRecord where
  "lost_record = \<lparr>task_id = Some 7, time = Some ''abc'', val = Some (Finite (- 1)), name = None\<rparr>"

text \<open>Every series of \<open>seriesByTask\<close> has as many values as timestamps.\<close>

definition balanced :: "(real \<times> NezhaMonitor) list \<Rightarrow> bool" where
  "balanced m = list_all (\<lambda>(k, s). length (created_at s) = length (avg_delay s)) m"

text \<open>
  For the display range: the finite timestamp that a reported \<open>from\<close> or \<open>to\<close> parses
  to, if any; all observed timestamps; and the last resort, the requested hours before
  now.
\<close>

definition reported :: "(string \<Rightarrow> num) \<Rightarrow> string option \<Rightarrow> real option" where
  "reported parse x =
     (case x of None \<Rightarrow> None
      | Some s \<Rightarrow> (case parse s of Finite t \<Rightarrow> Some t | _ \<Rightarrow> None))"

definition observed_times :: "NezhaMonitor list \<Rightarrow> real list" where
  "observed_times ms = concat (map created_at ms)"

definition fallback_range :: "real \<Rightarrow> real \<Rightarrow> num \<times> num" where
  "fallback_range now rangeHours =
     (Finite (now - max 1 (math_floor rangeHours) * 60 * 60 * 1000), Finite now)"

text \<open>A series with samples at 0 and 100.\<close>

definition two_samples :: NezhaMonitor where
  "two_samples =
     \<lparr>monitor_id = 1, monitor_name = ''m'', server_id = 1, server_name = ''s'',
      created_at = [0, 100], avg_delay = [Some 10, Some 20], packet_loss = None\<rparr>"

text \<open>
  The window of the peak-cut filter at a row, and whether some row of it carries a number
  for a key. Eleven rows for a key: ten with the value 10, the last with \<open>null\<close>.
\<close>

definition window_at :: "ResultItem list \<Rightarrow> nat \<Rightarrow> ResultItem list" where
  "window_at rows index = take windowSize (drop (index + 1 - windowSize) rows)"

definition has_number :: "ResultItem list \<Rightarrow> string \<Rightarrow> bool" where
  "has_number window key = list_ex (\<lambda>w. case w key of Some (Some v) \<Rightarrow> True | _ \<Rightarrow> False) window"

definition gap_rows :: "ResultItem list" where
  "gap_rows = replicate 10 [''a'' \<mapsto> Some 10] @ [[''a'' \<mapsto> None]]"

text \<open>
  Spans that do not overlap and are in ascending order: each span ends before every
  later one starts, and each span is non-empty.
\<close>

definition spans_apart :: "OfflineSpan list \<Rightarrow> bool" where
  "spans_apart spans =
     (sorted_wrt (\<lambda>a b. span_start a < span_start b \<and> span_end a < span_start b) spans \<and>
      list_all (\<lambda>s. span_start s < span_end s) spans)"

text \<open>All timestamps of all series.\<close>

definition all_times :: "NezhaMonitor list \<Rightarrow> real set" where
  "all_times rawData = (\<Union>item \<in> set rawData. set (created_at item))"

text \<open>
  For the formatter: the number of valid points before a time, where the cursor of the
  interpolation stands after its loop; the points it then reads as previous and next;
  the invariant of the cursor; the row of a time in \<open>result\<close>; and the row that one series
  writes for a time.
\<close>

definition before_count :: "(real \<times> real) list \<Rightarrow> real \<Rightarrow> nat" where
  "before_count points t = length (takeWhile (\<lambda>p. fst p < t) points)"

definition prev_at :: "(real \<times> real) list \<Rightarrow> real \<Rightarrow> (real \<times> real) option" where
  "prev_at points t =
     (if before_count points t = 0 then None else Some (points ! (before_count points t - 1)))"

definition next_at :: "(real \<times> real) list \<Rightarrow> real \<Rightarrow> (real \<times> real) option" where
  "next_at points t =
     (if before_count points t < length points then Some (points ! before_count points t)
      else None)"

definition cursor_ok :: "(real \<times> real) list \<Rightarrow> nat \<times> (real \<times> real) option \<Rightarrow> bool" where
  "cursor_ok points cursor =
     (fst cursor \<le> length points \<and>
      snd cursor = (if fst cursor = 0 then None else Some (points ! (fst cursor - 1))))"

definition row_at :: "(real \<times> ResultItem) list \<Rightarrow> real list \<Rightarrow> real \<Rightarrow> ResultItem" where
  "row_at result observed t =
     (case map_of result t of None \<Rightarrow> newRow t observed | Some r \<Rightarrow> r)"

definition written :: "NezhaMonitor \<Rightarrow> real \<Rightarrow> real \<Rightarrow> ResultItem \<Rightarrow> ResultItem" where
  "written item interval t row =
     (if row OFFLINE_KEY \<noteq> Some None
      then row(monitor_name item \<mapsto> None, packet_loss_key (monitor_name item) \<mapsto> None)
      else if t \<in> set (created_at item)
      then row(monitor_name item \<mapsto> (case valueMap item t of None \<Rightarrow> None | Some v \<Rightarrow> v),
               packet_loss_key (monitor_name item) \<mapsto>
                 (case packetLossMap item t of None \<Rightarrow> None | Some v \<Rightarrow> v))
      else row(monitor_name item \<mapsto>
                 interpolate (prev_at (validPoints item) t) (next_at (validPoints item) t) interval t,
               packet_loss_key (monitor_name item) \<mapsto> None))"

text \<open>
  A nearest valid point before a time, and one after it: no valid point lies strictly
  between it and the time.
\<close>

definition nearest_before :: "(real \<times> real) list \<Rightarrow> real \<Rightarrow> real \<times> real \<Rightarrow> bool" where
  "nearest_before points t p =
     (p \<in> set points \<and> fst p < t \<and> list_all (\<lambda>q. fst q < t \<longrightarrow> fst q \<le> fst p) points)"

definition nearest_after :: "(real \<times> real) list \<Rightarrow> real \<Rightarrow> real \<times> real \<Rightarrow> bool" where
  "nearest_after points t n =
     (n \<in> set points \<and> t < fst n \<and> list_all (\<lambda>q. t < fst q \<longrightarrow> fst n \<le> fst q) points)"

text \<open>
  What the claim asks of the value \<open>v\<close> emitted at a time \<open>t\<close> that is neither offline
  nor a sample, with the amendment that the value lies between the two bounding values
  and strictly so when they differ: a number is the linear interpolation between a
  nearest valid point before \<open>t\<close> and one after it, not further apart than 1.5 times
  the interval; and the value is \<open>null\<close> when the nearest points are further apart or one
  of them does not exist.
\<close>

definition interpolation_ok :: "(real \<times> real) list \<Rightarrow> real \<Rightarrow> real \<Rightarrow> real option \<Rightarrow> bool" where
  "interpolation_ok points interval t v =
     ((\<forall>x. v = Some x \<longrightarrow>
         (\<exists>p n. nearest_before points t p \<and> nearest_after points t n \<and>
            fst n - fst p \<le> interval * 1.5 \<and>
            x = snd p + (t - fst p) / (fst n - fst p) * (snd n - snd p) \<and>
            min (snd p) (snd n) \<le> x \<and> x \<le> max (snd p) (snd n) \<and>
            (snd p \<noteq> snd n \<longrightarrow> min (snd p) (snd n) < x \<and> x < max (snd p) (snd n)))) \<and>
      (\<forall>p n. nearest_before points t p \<and> nearest_after points t n \<and>
            fst n - fst p > interval * 1.5 \<longrightarrow> v = None) \<and>
      ((\<forall>q \<in> set points. \<not> fst q < t) \<or> (\<forall>q \<in> set points. \<not> t < fst q) \<longrightarrow> v = None))"

text \<open>
  The keys of a series do not collide with the two fixed keys of a row, nor with the keys
  of the series formatted after it.
\<close>

definition own_keys :: "NezhaMonitor \<Rightarrow> string set" where
  "own_keys item = {monitor_name item, packet_loss_key (monitor_name item)}"

definition keys_free :: "NezhaMonitor list \<Rightarrow> string \<Rightarrow> bool" where
  "keys_free items key = list_all (\<lambda>m. key \<notin> own_keys m) items"

text \<open>Two series: samples at 0 and 1000, both 10 or 10 and 20; and one sample at 500.\<close>

definition flat_a :: NezhaMonitor where
  "flat_a = \<lparr>monitor_id = 1, monitor_name = ''a'', server_id = 1, server_name = ''s'',
      created_at = [0, 1000], avg_delay = [Some 10, Some 10], packet_loss = None\<rparr>"

definition rise_a :: NezhaMonitor where
  "rise_a = \<lparr>monitor_id = 1, monitor_name = ''a'', server_id = 1, server_name = ''s'',
      created_at = [0, 1000], avg_delay = [Some 10, Some 20], packet_loss = None\<rparr>"

definition mid_b :: NezhaMonitor where
  "mid_b = \<lparr>monitor_id = 2, monitor_name = ''b'', server_id = 1, server_name = ''s'',
      created_at = [500], avg_delay = [Some 7], packet_loss = None\<rparr>"

text \<open>
  The name under which \<open>fetchMonitor\<close> files the series of a node, and what it makes of
  a series of \<open>seriesByTask\<close>: the other fields stay; the values are as many as the
  timestamps, which are in non-decreasing order; a series without points becomes the
  single point at \<open>Date.now()\<close> with the value \<open>null\<close>; a series with points keeps
  all of them, those of one timestamp in their original order. A payload that lists a
  task without records beside the two records of another task.
\<close>

definition serverName_of :: "env \<Rightarrow> (string \<times> string option) list \<Rightarrow> string \<Rightarrow> real \<Rightarrow> string" where
  "serverName_of e ns uuid sid =
     (case map_of ns uuid of
        Some (Some n) \<Rightarrow> if n = [] then num_to_string e sid else n
      | _ \<Rightarrow> num_to_string e sid)"

definition assembled :: "env \<Rightarrow> NezhaMonitor \<Rightarrow> NezhaMonitor \<Rightarrow> bool" where
  "assembled e s0 s =
     (s = s0\<lparr>created_at := created_at s, avg_delay := avg_delay s\<rparr> \<and>
      length (created_at s) = length (avg_delay s) \<and>
      sorted (created_at s) \<and>
      (created_at s0 = [] \<longrightarrow> created_at s = [date_now e] \<and> avg_delay s = [None]) \<and>
      (created_at s0 \<noteq> [] \<longrightarrow>
         length (created_at s) = length (created_at s0) \<and>
         (\<forall>t. filter (\<lambda>z. fst z = t) (zip (created_at s) (avg_delay s))
              = filter (\<lambda>z. fst z = t) (zip (created_at s0) (avg_delay s0)))))"

definition listed_task :: payload where
  "listed_task = TasksAndRecords [\<lparr>task_ident = 4, task_name = ''idle''\<rparr>] twin_records"

section \<open>Properties\<close>

subsection \<open>The sample interval\<close>

lemma pushDeltas_positive_deltas: "pushDeltas ts = positive_deltas ts"
  by (induction ts rule: pushDeltas.induct) (simp_all add: positive_deltas_def)

lemma rounded_or_median:
  fixes median :: real
  assumes "math_round (median / 1000) * 1000 = 0"
  shows "max 1000 median = max 1000 (math_round (median / 1000) * 1000)"
proof -
  from assms have "\<lfloor>median / 1000 + 1 / 2\<rfloor> = 0"
    by (simp add: math_round_def)
  then have "median / 1000 + 1 / 2 < 1"
    by linarith
  then have "median < 1000" by simp
  with assms show ?thesis by simp
qed

lemma count_le_sorted:
  assumes "sorted (s :: real list)" "k < length s" "s ! k \<le> v"
  shows "k + 1 \<le> length (filter (\<lambda>x. x \<le> v) s)"
proof -
  have "\<forall>x \<in> set (take (k + 1) s). x \<le> v"
  proof
    fix x assume "x \<in> set (take (k + 1) s)"
    then obtain i where i: "i < k + 1" "i < length s" "x = s ! i"
      by (auto simp: in_set_conv_nth)
    then have "s ! i \<le> s ! k"
      using assms(1,2) by (intro sorted_nth_mono) simp_all
    with i assms(3) show "x \<le> v" by simp
  qed
  then have "filter (\<lambda>x. x \<le> v) (take (k + 1) s) = take (k + 1) s"
    by (simp add: filter_id_conv)
  then have "length (filter (\<lambda>x. x \<le> v) (take (k + 1) s)) = k + 1"
    using assms(2) by simp
  moreover have "filter (\<lambda>x. x \<le> v) s =
      filter (\<lambda>x. x \<le> v) (take (k + 1) s) @ filter (\<lambda>x. x \<le> v) (drop (k + 1) s)"
    by (metis append_take_drop_id filter_append)
  ultimately show ?thesis by (metis le_add1 length_append)
qed

lemma count_ge_sorted:
  assumes "sorted (s :: real list)" "k < length s" "v \<le> s ! k"
  shows "length s - k \<le> length (filter (\<lambda>x. v \<le> x) s)"
proof -
  have "\<forall>x \<in> set (drop k s). v \<le> x"
  proof
    fix x assume "x \<in> set (drop k s)"
    then obtain i where i: "i < length s - k" "x = s ! (k + i)"
      by (auto simp: in_set_conv_nth)
    then have "s ! k \<le> s ! (k + i)"
      using assms(1) by (intro sorted_nth_mono) simp_all
    with i assms(3) show "v \<le> x" by simp
  qed
  then have "filter (\<lambda>x. v \<le> x) (drop k s) = drop k s"
    by (simp add: filter_id_conv)
  then have "length (filter (\<lambda>x. v \<le> x) (drop k s)) = length s - k"
    by simp
  moreover have "filter (\<lambda>x. v \<le> x) s =
      filter (\<lambda>x. v \<le> x) (take k s) @ filter (\<lambda>x. v \<le> x) (drop k s)"
    by (metis append_take_drop_id filter_append)
  ultimately show ?thesis by (metis le_add2 length_append)
qed

lemma getMedianValue_is_median:
  assumes "xs \<noteq> []"
  shows "is_median (getMedianValue xs) xs"
proof -
  define s where "s = sort xs"
  define n where "n = length xs"
  define m where "m = getMedianValue xs"
  have st: "sorted s" and len: "length s = n" by (simp_all add: s_def n_def)
  from assms have n0: "0 < n" by (simp add: n_def)
  have cnt: "length (filter P xs) = length (filter P s)" for P
    by (simp add: s_def filter_sort)
  have "n \<le> 2 * length (filter (\<lambda>x. x \<le> m) s) \<and> n \<le> 2 * length (filter (\<lambda>x. m \<le> x) s)"
  proof (cases "n mod 2 \<noteq> 0")
    case True
    then have m: "m = s ! (n div 2)"
      by (simp add: m_def getMedianValue_def s_def n_def Let_def)
    have k: "n div 2 < length s" using n0 len by simp
    have a: "n div 2 + 1 \<le> length (filter (\<lambda>x. x \<le> m) s)"
      using st k by (rule count_le_sorted) (simp add: m)
    have b: "length s - n div 2 \<le> length (filter (\<lambda>x. m \<le> x) s)"
      using st k by (rule count_ge_sorted) (simp add: m)
    from a b len True show ?thesis by presburger
  next
    case False
    then have m: "m = (s ! (n div 2 - 1) + s ! (n div 2)) / 2"
      by (simp add: m_def getMedianValue_def s_def n_def Let_def)
    from False n0 have n2: "2 \<le> n" by presburger
    then have k1: "n div 2 - 1 < length s" and k2: "n div 2 < length s"
      using len by simp_all
    have "s ! (n div 2 - 1) \<le> s ! (n div 2)"
      using st k2 by (intro sorted_nth_mono) simp_all
    then have lo: "s ! (n div 2 - 1) \<le> m" and hi: "m \<le> s ! (n div 2)"
      by (simp_all add: m)
    have a: "n div 2 - 1 + 1 \<le> length (filter (\<lambda>x. x \<le> m) s)"
      using st k1 lo by (rule count_le_sorted)
    have b: "length s - n div 2 \<le> length (filter (\<lambda>x. m \<le> x) s)"
      using st k2 hi by (rule count_ge_sorted)
    from a b len False n2 show ?thesis by presburger
  qed
  then show ?thesis
    unfolding is_median_def cnt m_def n_def by simp
qed

text \<open>
  C6. For every list of series, \<open>getTypicalIntervalMs\<close> is the median of all positive
  consecutive timestamp deltas of all series, rounded to the nearest second and not
  below 1000, and it is 60000 when there is no positive delta; and what \<open>getMedianValue\<close>
  returns for these deltas is a median of them.
\<close>

theorem getTypicalIntervalMs_spec:
  "getTypicalIntervalMs ms = interval_spec ms \<and>
   (concat (map (\<lambda>item. positive_deltas (created_at item)) ms) \<noteq> [] \<longrightarrow>
      is_median (getMedianValue (concat (map (\<lambda>item. positive_deltas (created_at item)) ms)))
        (concat (map (\<lambda>item. positive_deltas (created_at item)) ms)))"
proof (intro conjI impI)
  let ?ds = "concat (map (\<lambda>item. positive_deltas (created_at item)) ms)"
  show "getTypicalIntervalMs ms = interval_spec ms"
  proof (cases "?ds = []")
    case True
    then show ?thesis
      by (simp add: getTypicalIntervalMs_def interval_spec_def pushDeltas_positive_deltas
          DEFAULT_INTERVAL_MS_def)
  next
    case False
    then have ne: "length ?ds \<noteq> 0" by simp
    show ?thesis
      using rounded_or_median [of "getMedianValue ?ds"] False
      unfolding getTypicalIntervalMs_def interval_spec_def pushDeltas_positive_deltas Let_def
      by (simp only: ne if_False False split: if_splits) auto
  qed
next
  assume "concat (map (\<lambda>item. positive_deltas (created_at item)) ms) \<noteq> []"
  then show "is_median (getMedianValue (concat (map (\<lambda>item. positive_deltas (created_at item)) ms)))
        (concat (map (\<lambda>item. positive_deltas (created_at item)) ms))"
    by (rule getMedianValue_is_median)
qed

theorem getTypicalIntervalMs_spec_witness:
  "getTypicalIntervalMs [scenario_series] = 150000 \<and> interval_spec [] = 60000 \<and>
   is_median 150000 [60000, 240000]"
proof -
  have d: "concat (map (\<lambda>item. positive_deltas (created_at item)) [scenario_series])
             = [60000, 240000]"
    by (simp add: positive_deltas_def scenario_series_def)
  have m: "getMedianValue [60000, 240000] = 150000"
    by (simp add: getMedianValue_def)
  have d1: "positive_deltas (created_at scenario_series) = [60000, 240000]"
    using d by simp
  have i: "interval_spec [scenario_series] = 150000" "interval_spec [] = 60000"
    by (simp_all add: interval_spec_def d1 m math_round_def)
  from getTypicalIntervalMs_spec [of "[scenario_series]"] show ?thesis
    unfolding d m i by simp
qed

subsection \<open>An unknown server\<close>

text \<open>
  C10. When no uuid of the node list has the number \<open>server_id\<close>, \<open>fetchMonitor\<close>
  returns \<open>{ success: true, data: [] }\<close>, throws nothing and sends no request for
  records.
\<close>

theorem fetchMonitor_unknown_server:
  assumes "\<forall>k \<in> fst ` set ns. uuidToNumber e k \<noteq> sid"
  shows "fetchMonitor e (Nodes ns) getRecords sid hours = (Inr \<lparr>success = True, data = []\<rparr>, [])"
proof -
  from assms have "find (\<lambda>k. uuidToNumber e k = sid) (map fst ns) = None"
    by (auto simp: find_None_iff)
  then show ?thesis by (simp add: fetchMonitor_def)
qed

theorem fetchMonitor_unknown_server_witness:
  "fetchMonitor demo_env (Nodes [(''ab'', Some ''alpha'')]) (\<lambda>c. UnknownPayload) 5 24
     = (Inr \<lparr>success = True, data = []\<rparr>, [])"
proof -
  have "\<forall>k \<in> fst ` set [(''ab'', Some ''alpha'')]. uuidToNumber demo_env k \<noteq> 5"
    by (simp add: demo_env_def)
  then show ?thesis
    by (rule fetchMonitor_unknown_server)
qed

subsection \<open>The scenario of a long gap\<close>

lemmas timeline_eval = buildTimelineData_def collectObserved_def set_add_def
  getTypicalIntervalMs_def getMedianValue_def math_round_def buildOfflineSpans_def
  OFFLINE_GAP_MULTIPLIER_def buildOfflinePoints_def spanPoints.simps new_Set_def
  DEFAULT_INTERVAL_MS_def

lemmas format_eval = formatData_def formatSeries_def seriesStep_def newRow_def OFFLINE_KEY_def
  packet_loss_key_def valueMap_def validPoints_def interpolate_def nth_opt_def row_time_def
  advance.simps OFFLINE_GAP_MULTIPLIER_def

lemma scenario_timeline:
  "buildTimelineData [scenario_series] 0 300000 =
     \<lparr>timeline = [0, 60000, 210000, 300000],
      offlineSpans = [\<lparr>span_start = 210000, span_end = 300000\<rparr>],
      observedSet = [0, 60000, 300000], intervalMs = 150000\<rparr>"
  by (simp add: timeline_eval scenario_series_def Let_def)

text \<open>
  C9, as stated, fails: on the series with samples at 0, 60000 and 300000 and the range
  from 0 to 300000 the pipeline computes the interval 150000 (the median of the deltas
  60000 and 240000), not 60000, and its timeline has no point at 120000.
\<close>

theorem scenario_pipeline_counterexample:
  "intervalMs (buildTimelineData [scenario_series] 0 300000) = 150000 \<and>
   timeline (buildTimelineData [scenario_series] 0 300000) = [0, 60000, 210000, 300000] \<and>
   120000 \<notin> set (timeline (buildTimelineData [scenario_series] 0 300000))"
  by (simp add: timeline_eval scenario_series_def Let_def)

text \<open>
  C9, amended. On that series and range the pipeline computes the interval 150000; the
  gap of 240000 exceeds the threshold 225000, the one offline span runs from 210000 to
  300000, the timeline is 0, 60000, 210000, 300000, and the row at 210000 carries the
  offline marker and \<open>null\<close> for the monitor, the three samples their values. When the
  interval 60000 is handed to the span builder and the formatter instead, the span runs
  from 120000 to 300000, the synthetic points are 120000, 180000 and 240000, and the
  rows there, the one at 120000 among them, carry the marker and \<open>null\<close>.
\<close>

theorem scenario_offline_gap:
  "(let td = buildTimelineData [scenario_series] 0 300000
    in intervalMs td = 150000 \<and>
       offlineSpans td = [\<lparr>span_start = 210000, span_end = 300000\<rparr>] \<and>
       timeline td = [0, 60000, 210000, 300000] \<and>
       map (\<lambda>r. (r ''created_at'', r OFFLINE_KEY, r ''m''))
         (formatData [scenario_series] (timeline td) (observedSet td) (intervalMs td))
       = [(Some (Some 0), Some None, Some (Some 10)),
          (Some (Some 60000), Some None, Some (Some 20)),
          (Some (Some 210000), Some (Some 1), Some None),
          (Some (Some 300000), Some None, Some (Some 30))]) \<and>
   buildOfflineSpans [0, 60000, 300000] 0 300000 60000
     = [\<lparr>span_start = 120000, span_end = 300000\<rparr>] \<and>
   buildOfflinePoints [\<lparr>span_start = 120000, span_end = 300000\<rparr>] 60000
     = [120000, 180000, 240000] \<and>
   map (\<lambda>r. (r ''created_at'', r OFFLINE_KEY, r ''m''))
     (formatData [scenario_series] [0, 60000, 120000, 180000, 240000, 300000]
        [0, 60000, 300000] 60000)
   = [(Some (Some 0), Some None, Some (Some 10)),
      (Some (Some 60000), Some None, Some (Some 20)),
      (Some (Some 120000), Some (Some 1), Some None),
      (Some (Some 180000), Some (Some 1), Some None),
      (Some (Some 240000), Some (Some 1), Some None),
      (Some (Some 300000), Some None, Some (Some 30))]"
proof -
  have a: "map (\<lambda>r. (r ''created_at'', r OFFLINE_KEY, r ''m''))
         (formatData [scenario_series] [0, 60000, 210000, 300000] [0, 60000, 300000] 150000)
       = [(Some (Some 0), Some None, Some (Some 10)),
          (Some (Some 60000), Some None, Some (Some 20)),
          (Some (Some 210000), Some (Some 1), Some None),
          (Some (Some 300000), Some None, Some (Some 30))]"
    by (simp add: format_eval scenario_series_def Let_def upt_rec)
  have b: "buildOfflineSpans [0, 60000, 300000] 0 300000 60000
     = [\<lparr>span_start = 120000, span_end = 300000\<rparr>]"
    by (simp add: buildOfflineSpans_def OFFLINE_GAP_MULTIPLIER_def)
  have c: "buildOfflinePoints [\<lparr>span_start = 120000, span_end = 300000\<rparr>] 60000
     = [120000, 180000, 240000]"
    by (simp add: buildOfflinePoints_def spanPoints.simps)
  have d: "map (\<lambda>r. (r ''created_at'', r OFFLINE_KEY, r ''m''))
     (formatData [scenario_series] [0, 60000, 120000, 180000, 240000, 300000]
        [0, 60000, 300000] 60000)
   = [(Some (Some 0), Some None, Some (Some 10)),
      (Some (Some 60000), Some None, Some (Some 20)),
      (Some (Some 120000), Some (Some 1), Some None),
      (Some (Some 180000), Some (Some 1), Some None),
      (Some (Some 240000), Some (Some 1), Some None),
      (Some (Some 300000), Some None, Some (Some 30))]"
    by (simp add: format_eval scenario_series_def Let_def upt_rec)
  show ?thesis
    unfolding scenario_timeline Let_def
    by (simp only: a b c d TimelineData.simps simp_thms)
qed

subsection \<open>The packet-loss estimate\<close>

lemma lossStep_length: "length (lossStep d i acc) = Suc (length acc)"
  by (simp add: lossStep_def Let_def)

lemma rates_Suc:
  "fold (lossStep d) [0 ..< Suc n] [] = lossStep d n (fold (lossStep d) [0 ..< n] [])"
  by simp

lemma rates_length: "length (fold (lossStep d) [0 ..< n] []) = n"
  by (induction n) (simp_all add: lossStep_length)

lemma rates_prefix:
  assumes "i < n"
  shows "fold (lossStep d) [0 ..< Suc n] [] ! i = fold (lossStep d) [0 ..< n] [] ! i"
proof -
  have "fold (lossStep d) [0 ..< Suc n] [] = fold (lossStep d) [0 ..< n] [] @
      [max 0 (min 100 (if n > 0 then 0.3 * rawLossRate d n + (1 - 0.3) * (fold (lossStep d) [0 ..< n] [] ! (n - 1))
                      else rawLossRate d n))]"
    by (simp add: lossStep_def Let_def)
  with assms show ?thesis
    by (simp add: nth_append rates_length)
qed

lemma rates_nth:
  "i < n \<Longrightarrow> fold (lossStep d) [0 ..< n] [] ! i =
     max 0 (min 100 (if i > 0
                     then 0.3 * rawLossRate d i + 0.7 * (fold (lossStep d) [0 ..< n] [] ! (i - 1))
                     else rawLossRate d i))"
proof (induction n)
  case 0
  then show ?case by simp
next
  case (Suc n)
  show ?case
  proof (cases "i < n")
    case True
    then have "i - 1 < n" by simp
    with True Suc.IH show ?thesis
      by (simp only: rates_prefix)
  next
    case False
    with Suc.prems have i: "i = n" by simp
    have last: "fold (lossStep d) [0 ..< Suc n] [] ! n =
      max 0 (min 100 (if n > 0 then 0.3 * rawLossRate d n + (1 - 0.3) * (fold (lossStep d) [0 ..< n] [] ! (n - 1))
                      else rawLossRate d n))"
      by (simp add: lossStep_def Let_def nth_append rates_length)
    show ?thesis
    proof (cases "n > 0")
      case True
      then have "n - 1 < n" by simp
      then have "fold (lossStep d) [0 ..< Suc n] [] ! (n - 1) = fold (lossStep d) [0 ..< n] [] ! (n - 1)"
        by (rule rates_prefix)
      with last True i show ?thesis by simp
    next
      case False
      with last i show ?thesis by simp
    qed
  qed
qed

lemma packetLossRates_nth:
  "i < length delays \<Longrightarrow> packetLossRates delays ! i =
     max 0 (min 100 (if i > 0
                     then 0.3 * rawLossRate delays i + 0.7 * (packetLossRates delays ! (i - 1))
                     else rawLossRate delays i))"
  unfolding packetLossRates_def by (rule rates_nth)

lemma packetLossRates_range:
  assumes "i < length delays"
  shows "0 \<le> packetLossRates delays ! i \<and> packetLossRates delays ! i \<le> 100"
proof -
  define x where "x = (if i > 0
                     then 0.3 * rawLossRate delays i + 0.7 * (packetLossRates delays ! (i - 1))
                     else rawLossRate delays i)"
  have "packetLossRates delays ! i = max 0 (min 100 x)"
    unfolding x_def by (rule packetLossRates_nth [OF assms])
  then show ?thesis by simp
qed

lemma toFixed2_range:
  assumes "0 \<le> x" "x \<le> 100"
  shows "0 \<le> toFixed2 x \<and> toFixed2 x \<le> 100"
proof -
  from assms have "x * 100 + 1 / 2 < 10001" by simp
  then have "\<lfloor>x * 100 + 1 / 2\<rfloor> < 10001" by (simp add: floor_less_iff)
  then have up: "\<lfloor>x * 100 + 1 / 2\<rfloor> \<le> 10000" by simp
  from assms have "0 \<le> x * 100 + 1 / 2" by simp
  then have lo: "0 \<le> \<lfloor>x * 100 + 1 / 2\<rfloor>" by simp
  from up have "real_of_int \<lfloor>x * 100 + 1 / 2\<rfloor> \<le> 10000" by linarith
  with lo assms show ?thesis
    by (simp add: toFixed2_def)
qed

lemma toFixed2_two_decimals: "\<exists>k::int. toFixed2 x = of_int k / 100"
proof (cases "x < 0")
  case True
  then have "toFixed2 x = of_int (- \<lfloor>- x * 100 + 1 / 2\<rfloor>) / 100"
    by (simp add: toFixed2_def)
  then show ?thesis by blast
next
  case False
  then have "toFixed2 x = of_int \<lfloor>x * 100 + 1 / 2\<rfloor> / 100"
    by (simp add: toFixed2_def)
  then show ?thesis by blast
qed

lemma clamp_step:
  fixes p r :: real
  assumes "0 \<le> p" "p \<le> 100"
  shows "\<bar>max 0 (min 100 (0.3 * r + 0.7 * p)) - p\<bar> \<le> 0.3 * \<bar>r - p\<bar>"
  using assms by (auto simp: max_def min_def abs_if)

lemma packetLossRates_step:
  assumes i: "i < length delays" and pos: "0 < i"
  shows "packetLossRates delays ! i =
           max 0 (min 100 (0.3 * rawLossRate delays i + 0.7 * (packetLossRates delays ! (i - 1))))"
    and "\<bar>packetLossRates delays ! i - packetLossRates delays ! (i - 1)\<bar>
           \<le> 0.3 * \<bar>rawLossRate delays i - packetLossRates delays ! (i - 1)\<bar>"
proof -
  show e: "packetLossRates delays ! i =
           max 0 (min 100 (0.3 * rawLossRate delays i + 0.7 * (packetLossRates delays ! (i - 1))))"
    by (subst packetLossRates_nth [OF i]) (simp only: pos if_True)
  from i pos have "i - 1 < length delays" by simp
  then have p: "0 \<le> packetLossRates delays ! (i - 1) \<and> packetLossRates delays ! (i - 1) \<le> 100"
    by (rule packetLossRates_range)
  have "\<bar>max 0 (min 100 (0.3 * rawLossRate delays i + 0.7 * (packetLossRates delays ! (i - 1))))
          - packetLossRates delays ! (i - 1)\<bar>
           \<le> 0.3 * \<bar>rawLossRate delays i - packetLossRates delays ! (i - 1)\<bar>"
    by (rule clamp_step) (use p in blast)+
  then show "\<bar>packetLossRates delays ! i - packetLossRates delays ! (i - 1)\<bar>
           \<le> 0.3 * \<bar>rawLossRate delays i - packetLossRates delays ! (i - 1)\<bar>"
    by (simp only: e)
qed

lemma calculatePacketLoss_nth:
  assumes "i < length delays"
  shows "calculatePacketLoss delays ! i = toFixed2 (packetLossRates delays ! i)"
proof -
  have len: "length (packetLossRates delays) = length delays"
    by (simp add: packetLossRates_def rates_length)
  from assms have "length delays \<noteq> 0" by (cases delays) simp_all
  then have "calculatePacketLoss delays = map toFixed2 (packetLossRates delays)"
    by (simp only: calculatePacketLoss_def if_False)
  with assms len show ?thesis by simp
qed

text \<open>
  C4. For every delay sequence the output of \<open>calculatePacketLoss\<close> has one entry per
  delay; every entry lies between 0 and 100 and is a whole number of hundredths, namely
  the rounding of the entry of \<open>packetLossRates\<close>; and for every index \<open>i > 0\<close> that
  entry is 0.3 times the raw estimate at \<open>i\<close> plus 0.7 times the entry at \<open>i - 1\<close>,
  clamped to the interval from 0 to 100, so that it moves away from the previous entry by
  at most 0.3 times the distance of the raw estimate from the previous entry.
\<close>

theorem calculatePacketLoss_bounds:
  "length (calculatePacketLoss delays) = length delays \<and>
   (\<forall>i < length delays.
      0 \<le> calculatePacketLoss delays ! i \<and> calculatePacketLoss delays ! i \<le> 100 \<and>
      (\<exists>k::int. calculatePacketLoss delays ! i = of_int k / 100) \<and>
      calculatePacketLoss delays ! i = toFixed2 (packetLossRates delays ! i) \<and>
      (0 < i \<longrightarrow>
         packetLossRates delays ! i =
           max 0 (min 100 (0.3 * rawLossRate delays i + 0.7 * (packetLossRates delays ! (i - 1)))) \<and>
         \<bar>packetLossRates delays ! i - packetLossRates delays ! (i - 1)\<bar>
           \<le> 0.3 * \<bar>rawLossRate delays i - packetLossRates delays ! (i - 1)\<bar>))"
proof (intro conjI allI impI)
  show "length (calculatePacketLoss delays) = length delays"
    by (simp add: calculatePacketLoss_def packetLossRates_def rates_length)
next
  fix i assume i: "i < length delays"
  have r: "0 \<le> packetLossRates delays ! i \<and> packetLossRates delays ! i \<le> 100"
    using i by (rule packetLossRates_range)
  then have b: "0 \<le> toFixed2 (packetLossRates delays ! i) \<and>
        toFixed2 (packetLossRates delays ! i) \<le> 100"
    by (intro toFixed2_range) blast+
  from b show "0 \<le> calculatePacketLoss delays ! i"
    by (simp only: calculatePacketLoss_nth [OF i])
  from b show "calculatePacketLoss delays ! i \<le> 100"
    by (simp only: calculatePacketLoss_nth [OF i])
  show "\<exists>k::int. calculatePacketLoss delays ! i = of_int k / 100"
    by (simp only: calculatePacketLoss_nth [OF i] toFixed2_two_decimals)
  show "calculatePacketLoss delays ! i = toFixed2 (packetLossRates delays ! i)"
    by (rule calculatePacketLoss_nth [OF i])
next
  fix i assume i: "i < length delays" and pos: "0 < i"
  show "packetLossRates delays ! i =
           max 0 (min 100 (0.3 * rawLossRate delays i + 0.7 * (packetLossRates delays ! (i - 1))))"
    by (rule packetLossRates_step(1) [OF i pos])
next
  fix i assume i: "i < length delays" and pos: "0 < i"
  show "\<bar>packetLossRates delays ! i - packetLossRates delays ! (i - 1)\<bar>
           \<le> 0.3 * \<bar>rawLossRate delays i - packetLossRates delays ! (i - 1)\<bar>"
    by (rule packetLossRates_step(2) [OF i pos])
qed

lemma demo_rawLossRate:
  "rawLossRate [None, Some 5000] 0 = 100" "rawLossRate [None, Some 5000] (Suc 0) = 10"
  by (simp_all add: rawLossRate_def nth_opt_def Let_def)

lemma demo_packetLossRates: "packetLossRates [None, Some 5000] = [100, 73]"
  by (simp add: packetLossRates_def lossStep_def demo_rawLossRate)

theorem calculatePacketLoss_bounds_witness:
  "calculatePacketLoss [None, Some 5000] = [100, 73] \<and>
   rawLossRate [None, Some 5000] 1 = 10 \<and>
   packetLossRates [None, Some 5000] ! 1 =
     max 0 (min 100 (0.3 * rawLossRate [None, Some 5000] 1 + 0.7 * (packetLossRates [None, Some 5000] ! (1 - 1)))) \<and>
   0 \<le> calculatePacketLoss [None, Some 5000] ! 1 \<and> calculatePacketLoss [None, Some 5000] ! 1 \<le> 100"
proof -
  have a: "calculatePacketLoss [None, Some 5000] = [100, 73]"
    by (simp add: calculatePacketLoss_def demo_packetLossRates toFixed2_def)
  have b: "rawLossRate [None, Some 5000] 1 = 10"
    using demo_rawLossRate(2) by simp
  have c: "(1::nat) < length [None, Some (5000::real)]" "(0::nat) < 1"
    by simp_all
  from calculatePacketLoss_bounds [of "[None, Some 5000]", THEN conjunct2, rule_format, OF c(1)] c(2)
  have "packetLossRates [None, Some 5000] ! 1 =
     max 0 (min 100 (0.3 * rawLossRate [None, Some 5000] 1 + 0.7 * (packetLossRates [None, Some 5000] ! (1 - 1)))) \<and>
   0 \<le> calculatePacketLoss [None, Some 5000] ! 1 \<and> calculatePacketLoss [None, Some 5000] ! 1 \<le> 100"
    by blast
  with a b show ?thesis by blast
qed

subsection \<open>Appending records and assembling series\<close>

lemma map_of_ensureSeries:
  "map_of (ensureSeries sid sn i nm m) k =
     (if map_of m i = None \<and> k = i
      then Some \<lparr>monitor_id = i, monitor_name = nm, server_id = sid, server_name = sn,
                 created_at = [], avg_delay = [], packet_loss = None\<rparr>
      else map_of m k)"
  by (auto simp: ensureSeries_def map_add_def split: option.splits)

lemma map_of_push:
  "map_of (map (\<lambda>(k, s). if k = i then (k, g s) else (k, s)) m) k =
     (if k = i then map_option g (map_of m i) else map_of m k)"
  by (induction m) auto

lemma series_points_ensureSeries:
  "series_points (ensureSeries sid sn i nm m) k = series_points m k"
  by (simp add: series_points_def map_of_ensureSeries)

lemma ensureSeries_has: "map_of (ensureSeries sid sn i nm m) i \<noteq> None"
  by (simp add: map_of_ensureSeries)

text \<open>
  C3. \<open>appendRecord\<close> appends a record to the series of its task exactly when its time
  parses to a finite timestamp and its value to a finite number: then the timestamp and
  the value go to the end of that series, the value -1 as \<open>null\<close>; otherwise no series
  changes its points; and the series of the other tasks never change.
\<close>

theorem appendRecord_appends_iff:
  "(record_ts e r = Finite ts \<and> record_val r = Finite v \<longrightarrow>
      series_points (appendRecord e sid sn r m) (record_id r) =
        (fst (series_points m (record_id r)) @ [ts],
         snd (series_points m (record_id r)) @ [if v = - 1 then None else Some v])) \<and>
   (\<not> (isFinite (record_ts e r) \<and> isFinite (record_val r)) \<longrightarrow>
      series_points (appendRecord e sid sn r m) k = series_points m k) \<and>
   (k \<noteq> record_id r \<longrightarrow>
      series_points (appendRecord e sid sn r m) k = series_points m k)"
proof (intro conjI impI)
  assume a: "record_ts e r = Finite ts \<and> record_val r = Finite v"
  let ?nm = "case name r of Some n \<Rightarrow> n | None \<Rightarrow> ''task_'' @ num_to_string e (record_id r)"
  let ?m = "ensureSeries sid sn (record_id r) ?nm m"
  obtain s where s: "map_of ?m (record_id r) = Some s"
    using ensureSeries_has [of sid sn "record_id r" ?nm m] by blast
  then have sp: "series_points m (record_id r) = (created_at s, avg_delay s)"
    using series_points_ensureSeries [of sid sn "record_id r" ?nm m "record_id r"]
    by (simp add: series_points_def)
  from a s show "series_points (appendRecord e sid sn r m) (record_id r) =
        (fst (series_points m (record_id r)) @ [ts],
         snd (series_points m (record_id r)) @ [if v = - 1 then None else Some v])"
    unfolding sp
    by (simp add: appendRecord_def Let_def series_points_def map_of_push push_point_def)
next
  assume "\<not> (isFinite (record_ts e r) \<and> isFinite (record_val r))"
  then show "series_points (appendRecord e sid sn r m) k = series_points m k"
    by (cases "record_ts e r"; cases "record_val r")
      (simp_all add: appendRecord_def Let_def series_points_ensureSeries)
next
  assume "k \<noteq> record_id r"
  then show "series_points (appendRecord e sid sn r m) k = series_points m k"
    using series_points_ensureSeries [of sid sn "record_id r" _ m k]
    by (cases "record_ts e r"; cases "record_val r")
      (simp_all add: appendRecord_def Let_def series_points_def map_of_push)
qed

lemma demo_lost_record:
  "record_ts demo_env lost_record = Finite 3" "record_val lost_record = Finite (- 1)"
  "record_id lost_record = 7"
  by (simp_all add: record_ts_def record_val_def record_id_def lost_record_def demo_env_def)

theorem appendRecord_appends_iff_witness:
  "series_points (appendRecord demo_env 2 ''srv'' lost_record []) 7 = ([3], [None])"
  using appendRecord_appends_iff [of demo_env lost_record 3 "- 1" 2 "''srv''" "[]" 7]
  by (simp add: demo_lost_record series_points_def)

lemma balanced_ensureSeries: "balanced m \<Longrightarrow> balanced (ensureSeries sid sn i nm m)"
  by (simp add: balanced_def ensureSeries_def)

lemma balanced_appendRecord: "balanced m \<Longrightarrow> balanced (appendRecord e sid sn r m)"
proof -
  assume "balanced m"
  then have b: "balanced (ensureSeries sid sn (record_id r) nm m)" for nm
    by (rule balanced_ensureSeries)
  have p: "balanced (map (\<lambda>(k, s). if k = i then (k, push_point ts v s) else (k, s)) m')"
    if "balanced m'" for i ts v m'
    using that by (auto simp: balanced_def list_all_iff push_point_def split: if_splits)
  show ?thesis
    by (cases "record_ts e r"; cases "record_val r")
      (simp_all add: appendRecord_def Let_def b p)
qed

lemma balanced_fold_append:
  "balanced m \<Longrightarrow> balanced (fold (appendRecord e sid sn) rs m)"
  by (induction rs arbitrary: m) (simp_all add: balanced_appendRecord)

lemma balanced_fold_ensure:
  "balanced m \<Longrightarrow> balanced (fold (\<lambda>t m. ensureSeries sid sn (task_ident t) (task_name t) m) ts m)"
  by (induction ts arbitrary: m) (simp_all add: balanced_ensureSeries)

lemma balanced_collectSeries: "balanced (collectSeries e sid sn p)"
proof (cases p)
  case (TasksAndRecords ts rs)
  have "balanced []" by (simp add: balanced_def)
  then show ?thesis
    unfolding TasksAndRecords collectSeries.simps
    by (intro balanced_fold_append balanced_fold_ensure)
next
  case (RecordsOnly rs)
  have "balanced []" by (simp add: balanced_def)
  then show ?thesis
    unfolding RecordsOnly collectSeries.simps by (rule balanced_fold_append)
next
  case (BareRecords rs)
  have "balanced []" by (simp add: balanced_def)
  then show ?thesis
    unfolding BareRecords collectSeries.simps by (rule balanced_fold_append)
qed (simp_all add: balanced_def)

lemma sortSeries_shape:
  "length (created_at (sortSeries s)) = length (created_at s) \<and>
   length (avg_delay (sortSeries s)) = length (created_at s) \<and>
   sorted (created_at (sortSeries s))"
  by (simp add: sortSeries_def Let_def)

lemma padSeries_shape:
  assumes "length (created_at s) = length (avg_delay s)" "sorted (created_at s)"
  shows "length (created_at (padSeries e s)) = length (avg_delay (padSeries e s)) \<and>
         sorted (created_at (padSeries e s)) \<and> created_at (padSeries e s) \<noteq> []"
  using assms by (auto simp: padSeries_def)

lemma assembled_shape:
  "length (created_at (padSeries e (sortSeries s))) = length (avg_delay (padSeries e (sortSeries s))) \<and>
   sorted (created_at (padSeries e (sortSeries s))) \<and>
   created_at (padSeries e (sortSeries s)) \<noteq> []"
  by (rule padSeries_shape) (simp_all add: sortSeries_shape)

lemma assembled_empty:
  assumes "created_at s = []"
  shows "created_at (padSeries e (sortSeries s)) = [date_now e] \<and>
         avg_delay (padSeries e (sortSeries s)) = [None]"
  using assms by (simp add: padSeries_def sortSeries_def)

lemma assembled_nonempty:
  assumes "created_at s \<noteq> []"
  shows "padSeries e (sortSeries s) = sortSeries s \<and>
         length (created_at (sortSeries s)) = length (created_at s) \<and>
         set (created_at (sortSeries s)) = set (created_at s)"
proof -
  have "map fst (map (\<lambda>i. (created_at s ! i, nth_opt (avg_delay s) i)) [0 ..< length (created_at s)])
        = created_at s"
    by (simp add: map_nth comp_def)
  then have "set (map fst (sort_key fst
      (map (\<lambda>i. (created_at s ! i, nth_opt (avg_delay s) i)) [0 ..< length (created_at s)])))
     = set (created_at s)"
    by (metis set_map set_sort)
  with assms show ?thesis
    by (simp add: padSeries_def sortSeries_def Let_def)
qed

lemma fetchMonitor_data:
  assumes "fetchMonitor e nd getRecords sid hours = (Inr resp, calls)"
  shows "data resp = [] \<or>
         (\<exists>sn p. data resp = map (padSeries e \<circ> sortSeries \<circ> snd) (collectSeries e sid sn p))"
proof (cases nd)
  case (NodesError msg)
  with assms show ?thesis by (simp add: fetchMonitor_def)
next
  case (Nodes ns)
  show ?thesis
  proof (cases "find (\<lambda>k. uuidToNumber e k = sid) (map fst ns)")
    case None
    with assms Nodes show ?thesis by (auto simp: fetchMonitor_def)
  next
    case (Some uuid)
    show ?thesis
    proof (cases "uuid = []")
      case True
      with assms Nodes Some show ?thesis by (auto simp: fetchMonitor_def)
    next
      case False
      define sn where "sn = (case map_of ns uuid of
                               Some (Some n) \<Rightarrow> if n = [] then num_to_string e sid else n
                             | _ \<Rightarrow> num_to_string e sid)"
      define p where "p = getRecords (GetRecords uuid 4000 (max 1 (math_floor hours)))"
      from assms Nodes Some False
      have "data resp = map (padSeries e \<circ> sortSeries \<circ> snd) (collectSeries e sid sn p)"
        unfolding fetchMonitor_def Let_def
        by (cases p) (auto simp: sn_def [symmetric] p_def [symmetric] simp del: collectSeries.simps)
      then show ?thesis by blast
    qed
  qed
qed

lemma zip_indices:
  "length a = length c \<Longrightarrow>
   map (\<lambda>i. (c ! i, nth_opt a i)) [0 ..< length c] = zip c a"
  by (rule nth_equalityI) (simp_all add: nth_opt_def)

lemma assembled_pad_sort:
  assumes "length (created_at s0) = length (avg_delay s0)"
  shows "assembled e s0 (padSeries e (sortSeries s0))"
proof (cases "created_at s0 = []")
  case True
  with assms show ?thesis
    by (simp add: assembled_def padSeries_def sortSeries_def)
next
  case False
  define z where "z = sort_key fst (zip (created_at s0) (avg_delay s0))"
  have zi: "map (\<lambda>i. (created_at s0 ! i, nth_opt (avg_delay s0) i)) [0 ..< length (created_at s0)]
             = zip (created_at s0) (avg_delay s0)"
    using assms by (intro zip_indices) simp
  have s: "sortSeries s0 = s0\<lparr>created_at := map fst z, avg_delay := map snd z\<rparr>"
    unfolding sortSeries_def Let_def zi z_def by (rule refl)
  have lz: "length z = length (created_at s0)"
    using assms by (simp add: z_def)
  with False have p: "padSeries e (sortSeries s0) = sortSeries s0"
    by (simp add: padSeries_def s)
  have zz: "zip (map fst z) (map snd z) = z"
    by (simp add: zip_map_fst_snd)
  have st: "filter (\<lambda>y. fst y = t) z = filter (\<lambda>y. fst y = t) (zip (created_at s0) (avg_delay s0))" for t
    unfolding z_def by (rule sort_key_stable)
  have so: "sorted (map fst z)" by (simp add: z_def)
  have ps: "padSeries e (sortSeries s0) = s0\<lparr>created_at := map fst z, avg_delay := map snd z\<rparr>"
    using p s by simp
  show ?thesis
    unfolding assembled_def ps using False lz so st by (simp add: zz)
qed

lemma fetchMonitor_found:
  assumes r: "fetchMonitor e (Nodes ns) getRecords sid hours = (Inr resp, calls)"
    and u: "find (\<lambda>k. uuidToNumber e k = sid) (map fst ns) = Some uuid" "uuid \<noteq> []"
  shows "data resp = map (padSeries e \<circ> sortSeries \<circ> snd)
           (collectSeries e sid (serverName_of e ns uuid sid)
              (getRecords (GetRecords uuid 4000 (max 1 (math_floor hours)))))"
proof -
  define p where "p = getRecords (GetRecords uuid 4000 (max 1 (math_floor hours)))"
  from r u show ?thesis
    unfolding fetchMonitor_def Let_def serverName_of_def [symmetric]
    by (cases p) (auto simp: p_def [symmetric] simp del: collectSeries.simps)
qed

text \<open>
  C7, amended. Every series that \<open>fetchMonitor\<close> returns has as many values as
  timestamps, its timestamps are in non-decreasing order, and it is not empty. When the
  node is found, the series returned are, one for one and in order, those that the
  payload put into \<open>seriesByTask\<close>, each assembled: a series without points is replaced
  by the single point at \<open>Date.now()\<close> with the value \<open>null\<close>, and a series with
  points keeps all of them sorted by time, points of equal timestamps in their original
  order. When no node or the node of the empty uuid is found, no series is returned.
\<close>

theorem fetchMonitor_series_shape:
  assumes r: "fetchMonitor e nd getRecords sid hours = (Inr resp, calls)"
  shows "(\<forall>s \<in> set (data resp).
            length (created_at s) = length (avg_delay s) \<and> sorted (created_at s) \<and>
            created_at s \<noteq> []) \<and>
         (\<forall>ns uuid. nd = Nodes ns \<and>
            find (\<lambda>k. uuidToNumber e k = sid) (map fst ns) = Some uuid \<and> uuid \<noteq> [] \<longrightarrow>
            list_all2 (assembled e)
              (map snd (collectSeries e sid (serverName_of e ns uuid sid)
                          (getRecords (GetRecords uuid 4000 (max 1 (math_floor hours))))))
              (data resp)) \<and>
         (\<forall>ns. nd = Nodes ns \<and>
            (find (\<lambda>k. uuidToNumber e k = sid) (map fst ns) = None \<or>
             find (\<lambda>k. uuidToNumber e k = sid) (map fst ns) = Some []) \<longrightarrow>
            data resp = [])"
proof (intro conjI ballI allI impI)
  fix s assume s: "s \<in> set (data resp)"
  with fetchMonitor_data [OF r] obtain sn p where
    d: "data resp = map (padSeries e \<circ> sortSeries \<circ> snd) (collectSeries e sid sn p)"
    by auto
  with s obtain k s0 where "s = padSeries e (sortSeries s0)"
    by auto
  with assembled_shape [of e s0]
  show "length (created_at s) = length (avg_delay s)" "sorted (created_at s)" "created_at s \<noteq> []"
    by simp_all
next
  fix ns uuid
  assume a: "nd = Nodes ns \<and>
            find (\<lambda>k. uuidToNumber e k = sid) (map fst ns) = Some uuid \<and> uuid \<noteq> []"
  define m where "m = collectSeries e sid (serverName_of e ns uuid sid)
                          (getRecords (GetRecords uuid 4000 (max 1 (math_floor hours))))"
  from r a have d: "data resp = map (padSeries e \<circ> sortSeries \<circ> snd) m"
    unfolding m_def by (intro fetchMonitor_found) simp_all
  have "balanced m"
    unfolding m_def by (rule balanced_collectSeries)
  then have "\<forall>x \<in> set m. assembled e (snd x) (padSeries e (sortSeries (snd x)))"
    by (auto simp: balanced_def list_all_iff intro!: assembled_pad_sort)
  then have "list_all2 (assembled e) (map snd m) (data resp)"
    unfolding d by (simp add: list_all2_map1 list_all2_map2 list_all2_same)
  then show "list_all2 (assembled e)
              (map snd (collectSeries e sid (serverName_of e ns uuid sid)
                          (getRecords (GetRecords uuid 4000 (max 1 (math_floor hours))))))
              (data resp)"
    by (simp only: m_def)
next
  fix ns
  assume "nd = Nodes ns \<and>
            (find (\<lambda>k. uuidToNumber e k = sid) (map fst ns) = None \<or>
             find (\<lambda>k. uuidToNumber e k = sid) (map fst ns) = Some [])"
  with r show "data resp = []"
    by (auto simp: fetchMonitor_def)
qed

lemma demo_twin:
  "fetchMonitor demo_env (Nodes [(''ab'', Some ''alpha'')]) (\<lambda>c. BareRecords twin_records) 2 24 =
     (Inr \<lparr>success = True,
           data = [\<lparr>monitor_id = 1, monitor_name = ''t'', server_id = 2, server_name = ''alpha'',
                    created_at = [2, 2], avg_delay = [Some 5, Some 7], packet_loss = None\<rparr>]\<rparr>,
      [GetRecords ''ab'' 4000 24])"
  by (simp add: fetchMonitor_def demo_env_def twin_records_def appendRecord_def ensureSeries_def
      record_id_def record_ts_def record_val_def push_point_def sortSeries_def padSeries_def
      nth_opt_def math_floor_def Let_def upt_rec)

text \<open>
  C7, as stated, fails: two records of one task with the same time give a series whose
  timestamps are not strictly ascending.
\<close>

theorem fetchMonitor_equal_times_counterexample:
  "fst (fetchMonitor demo_env (Nodes [(''ab'', Some ''alpha'')]) (\<lambda>c. BareRecords twin_records) 2 24) =
     Inr \<lparr>success = True,
          data = [\<lparr>monitor_id = 1, monitor_name = ''t'', server_id = 2, server_name = ''alpha'',
                   created_at = [2, 2], avg_delay = [Some 5, Some 7], packet_loss = None\<rparr>]\<rparr> \<and>
   \<not> sorted_wrt (<) [2, 2 :: real]"
  by (simp add: demo_twin)

lemma demo_listed_collected:
  "collectSeries demo_env 2 ''alpha'' listed_task =
     [(4, \<lparr>monitor_id = 4, monitor_name = ''idle'', server_id = 2, server_name = ''alpha'',
            created_at = [], avg_delay = [], packet_loss = None\<rparr>),
      (1, \<lparr>monitor_id = 1, monitor_name = ''t'', server_id = 2, server_name = ''alpha'',
            created_at = [2, 2], avg_delay = [Some 5, Some 7], packet_loss = None\<rparr>)]"
  by (simp add: listed_task_def demo_env_def twin_records_def appendRecord_def ensureSeries_def
      record_id_def record_ts_def record_val_def push_point_def Let_def)

lemma demo_listed:
  "fetchMonitor demo_env (Nodes [(''ab'', Some ''alpha'')]) (\<lambda>c. listed_task) 2 24 =
     (Inr \<lparr>success = True,
           data = [\<lparr>monitor_id = 4, monitor_name = ''idle'', server_id = 2, server_name = ''alpha'',
                    created_at = [99], avg_delay = [None], packet_loss = None\<rparr>,
                   \<lparr>monitor_id = 1, monitor_name = ''t'', server_id = 2, server_name = ''alpha'',
                    created_at = [2, 2], avg_delay = [Some 5, Some 7], packet_loss = None\<rparr>]\<rparr>,
      [GetRecords ''ab'' 4000 24])"
  by (simp add: fetchMonitor_def demo_env_def listed_task_def twin_records_def appendRecord_def
      ensureSeries_def record_id_def record_ts_def record_val_def push_point_def sortSeries_def
      padSeries_def nth_opt_def math_floor_def Let_def upt_rec)

theorem fetchMonitor_series_shape_witness:
  "list_all2 (assembled demo_env)
     [\<lparr>monitor_id = 4, monitor_name = ''idle'', server_id = 2, server_name = ''alpha'',
       created_at = [], avg_delay = [], packet_loss = None\<rparr>,
      \<lparr>monitor_id = 1, monitor_name = ''t'', server_id = 2, server_name = ''alpha'',
       created_at = [2, 2], avg_delay = [Some 5, Some 7], packet_loss = None\<rparr>]
     [\<lparr>monitor_id = 4, monitor_name = ''idle'', server_id = 2, server_name = ''alpha'',
       created_at = [99], avg_delay = [None], packet_loss = None\<rparr>,
      \<lparr>monitor_id = 1, monitor_name = ''t'', server_id = 2, server_name = ''alpha'',
       created_at = [2, 2], avg_delay = [Some 5, Some 7], packet_loss = None\<rparr>]"
proof -
  have h: "Nodes [(''ab'', Some ''alpha'')] = Nodes [(''ab'', Some ''alpha'')] \<and>
      find (\<lambda>k. uuidToNumber demo_env k = 2) (map fst [(''ab'', Some ''alpha'')]) = Some ''ab'' \<and>
      ''ab'' \<noteq> []"
    by (simp add: demo_env_def)
  have n: "serverName_of demo_env [(''ab'', Some ''alpha'')] ''ab'' 2 = ''alpha''"
    by (simp add: serverName_of_def)
  from fetchMonitor_series_shape [OF demo_listed, THEN conjunct2, THEN conjunct1, rule_format, OF h]
  show ?thesis
    unfolding n demo_listed_collected by simp
qed

subsection \<open>The display range\<close>

lemma minmax_step_finite:
  "fold (\<lambda>time (minTime, maxTime).
            (if num_lt (Finite time) minTime then Finite time else minTime,
             if num_lt maxTime (Finite time) then Finite time else maxTime))
      ts (Finite a, Finite b) = (Finite (fold min ts a), Finite (fold max ts b))"
  by (induction ts arbitrary: a b) (auto simp: min_def max_def)

lemma observedMinMax_concat:
  "observedMinMax ms =
     fold (\<lambda>time (minTime, maxTime).
            (if num_lt (Finite time) minTime then Finite time else minTime,
             if num_lt maxTime (Finite time) then Finite time else maxTime))
       (observed_times ms) (PosInf, NegInf)"
proof -
  have "fold (\<lambda>item acc. fold g (created_at item) acc) ms acc
        = fold g (concat (map created_at ms)) acc" for g :: "real \<Rightarrow> num \<times> num \<Rightarrow> num \<times> num" and acc
    by (induction ms arbitrary: acc) simp_all
  then show ?thesis
    by (simp add: observedMinMax_def observed_times_def)
qed

lemma observedMinMax_empty:
  "observed_times ms = [] \<Longrightarrow> observedMinMax ms = (PosInf, NegInf)"
  by (simp add: observedMinMax_concat)

lemma observedMinMax_nonempty:
  assumes "observed_times ms \<noteq> []"
  shows "observedMinMax ms =
           (Finite (Min (set (observed_times ms))), Finite (Max (set (observed_times ms))))"
proof -
  from assms obtain x xs where o: "observed_times ms = x # xs"
    by (cases "observed_times ms") auto
  show ?thesis
    unfolding observedMinMax_concat o
    by (simp add: minmax_step_finite Min.set_eq_fold Max.set_eq_fold del: set_simps)
qed

lemma inverted_pair:
  assumes "reported parse from = Some a" "reported parse to = Some b" "b \<le> a"
  shows "getTimeRange parse now ms rangeHours from to = fallback_range now rangeHours"
proof -
  from assms(1) obtain sf where f: "from = Some sf" "parse sf = Finite a"
    by (auto simp: reported_def split: option.splits num.splits)
  from assms(2) obtain st where t: "to = Some st" "parse st = Finite b"
    by (auto simp: reported_def split: option.splits num.splits)
  obtain mn mx where o: "observedMinMax ms = (mn, mx)"
    by (cases "observedMinMax ms")
  show ?thesis
    using assms(3) by (simp add: getTimeRange_def f t o Let_def fallback_range_def)
qed

text \<open>
  C5, amended. When \<open>from\<close> and \<open>to\<close> both parse to finite timestamps with the start
  before the end, the range is that pair. When one of them or both are absent or do not
  parse, each absent end is taken from the observed timestamps of all series (the least
  for the start, the greatest for the end) and a reported end is kept; if there are
  observations and the start so obtained is before the end, that is the range; otherwise
  the range ends now and starts the requested hours, at least one, before now. When both
  parse to finite timestamps and the start is not before the end, the observed
  timestamps are not used: the range ends now and starts the requested hours before now.
\<close>

theorem getTimeRange_tiers:
  "(reported parse from = Some a \<and> reported parse to = Some b \<and> a < b \<longrightarrow>
      getTimeRange parse now ms rangeHours from to = (Finite a, Finite b)) \<and>
   (reported parse from = None \<or> reported parse to = None \<longrightarrow>
      getTimeRange parse now ms rangeHours from to =
        (let obs = observed_times ms;
             s = (case reported parse from of Some x \<Rightarrow> x | None \<Rightarrow> Min (set obs));
             e = (case reported parse to of Some x \<Rightarrow> x | None \<Rightarrow> Max (set obs))
         in if obs \<noteq> [] \<and> s < e then (Finite s, Finite e)
            else fallback_range now rangeHours)) \<and>
   (reported parse from = Some a \<and> reported parse to = Some b \<and> b \<le> a \<longrightarrow>
      getTimeRange parse now ms rangeHours from to = fallback_range now rangeHours)"
proof (intro conjI impI)
  assume "reported parse from = Some a \<and> reported parse to = Some b \<and> b \<le> a"
  then show "getTimeRange parse now ms rangeHours from to = fallback_range now rangeHours"
    using inverted_pair [of parse "from" a to b now ms rangeHours] by blast
next
  assume "reported parse from = Some a \<and> reported parse to = Some b \<and> a < b"
  then show "getTimeRange parse now ms rangeHours from to = (Finite a, Finite b)"
    by (auto simp: getTimeRange_def reported_def Let_def split: option.splits num.splits)
next
  assume n: "reported parse from = None \<or> reported parse to = None"
  define pf where "pf = (case from of Some s \<Rightarrow> parse s | None \<Rightarrow> NaN)"
  define pt where "pt = (case to of Some s \<Rightarrow> parse s | None \<Rightarrow> NaN)"
  have rf: "reported parse from = (case pf of Finite t \<Rightarrow> Some t | _ \<Rightarrow> None)"
    by (simp add: reported_def pf_def split: option.splits)
  have rt: "reported parse to = (case pt of Finite t \<Rightarrow> Some t | _ \<Rightarrow> None)"
    by (simp add: reported_def pt_def split: option.splits)
  show "getTimeRange parse now ms rangeHours from to =
        (let obs = observed_times ms;
             s = (case reported parse from of Some x \<Rightarrow> x | None \<Rightarrow> Min (set obs));
             e = (case reported parse to of Some x \<Rightarrow> x | None \<Rightarrow> Max (set obs))
         in if obs \<noteq> [] \<and> s < e then (Finite s, Finite e)
            else fallback_range now rangeHours)"
  proof (cases "observed_times ms = []")
    case True
    with n show ?thesis
      unfolding getTimeRange_def pf_def [symmetric] pt_def [symmetric] rf rt
      by (cases pf; cases pt)
        (simp_all add: observedMinMax_empty Let_def fallback_range_def)
  next
    case False
    with n show ?thesis
      unfolding getTimeRange_def pf_def [symmetric] pt_def [symmetric] rf rt
      by (cases pf; cases pt)
        (simp_all add: observedMinMax_nonempty Let_def fallback_range_def del: set_simps)
  qed
qed

lemma demo_reported:
  "reported (date_parse demo_env) (Some ''abc'') = Some 3"
  "reported (date_parse demo_env) (Some ''abcde'') = Some 5"
  "reported (date_parse demo_env) (Some ''ab'') = Some 2"
  "reported (date_parse demo_env) None = None"
  by (simp_all add: reported_def demo_env_def)

lemma demo_observedMinMax: "observedMinMax [two_samples] = (Finite 0, Finite 100)"
  by (simp add: observedMinMax_def two_samples_def)

text \<open>
  C5, as stated, fails. With samples observed at 0 and 100: a reported start 3 without a
  reported end gives the range from 3 to 100, not the observed range; and the reported
  pair 5, 2, finite with the start after the end, gives the range of the last 24 hours
  before now, not the observed range.
\<close>

theorem getTimeRange_tiers_counterexample:
  "observedMinMax [two_samples] = (Finite 0, Finite 100) \<and>
   getTimeRange (date_parse demo_env) 99 [two_samples] 24 (Some ''abc'') None
     = (Finite 3, Finite 100) \<and>
   getTimeRange (date_parse demo_env) 99 [two_samples] 24 (Some ''abcde'') (Some ''ab'')
     = (Finite (99 - 24 * 60 * 60 * 1000), Finite 99)"
  by (simp add: demo_observedMinMax getTimeRange_def demo_env_def math_floor_def)

theorem getTimeRange_tiers_witness:
  "getTimeRange (date_parse demo_env) 99 [two_samples] 24 (Some ''ab'') (Some ''abcde'')
     = (Finite 2, Finite 5) \<and>
   getTimeRange (date_parse demo_env) 99 [two_samples] 24 None None = (Finite 0, Finite 100) \<and>
   getTimeRange (date_parse demo_env) 99 [] 24 None None = fallback_range 99 24 \<and>
   getTimeRange (date_parse demo_env) 99 [two_samples] 24 (Some ''abcde'') (Some ''ab'')
     = fallback_range 99 24"
  using getTimeRange_tiers [of "date_parse demo_env" "Some ''ab''" 2 "Some ''abcde''" 5 99 "[two_samples]" 24]
    getTimeRange_tiers [of "date_parse demo_env" None 0 None 0 99 "[two_samples]" 24]
    getTimeRange_tiers [of "date_parse demo_env" None 0 None 0 99 "[]" 24]
    getTimeRange_tiers [of "date_parse demo_env" "Some ''abcde''" 5 "Some ''ab''" 2 99 "[two_samples]" 24]
  by (simp add: demo_reported observed_times_def two_samples_def)

subsection \<open>The peak-cut filter\<close>

lemma values_empty_iff:
  "concat (map (\<lambda>w. case w key of Some (Some v) \<Rightarrow> [v] | _ \<Rightarrow> []) window) = []
     \<longleftrightarrow> \<not> has_number window key"
  by (induction window) (auto simp: has_number_def split: option.splits)

lemma processValues_Some: "values \<noteq> [] \<Longrightarrow> \<exists>v. processValues values = Some v"
  by (simp add: processValues_def Let_def)

lemma smoothKey_other:
  "k \<noteq> key \<Longrightarrow> fst (smoothKey window key (sm, h)) k = sm k"
  by (simp add: smoothKey_def Let_def split: option.splits)

lemma smoothKey_no_number:
  "\<not> has_number window key \<Longrightarrow> smoothKey window key (sm, h) = (sm, h)"
  using values_empty_iff [of key window] by (simp add: smoothKey_def Let_def)

lemma smoothKey_number:
  assumes "has_number window key"
  shows "\<exists>v. fst (smoothKey window key (sm, h)) key = Some (Some v)"
proof -
  let ?vs = "concat (map (\<lambda>w. case w key of Some (Some v) \<Rightarrow> [v] | _ \<Rightarrow> []) window)"
  from assms have ne: "?vs \<noteq> []"
    using values_empty_iff [of key window] by simp
  then obtain p where "processValues ?vs = Some p"
    using processValues_Some by blast
  with ne show ?thesis
    by (simp add: smoothKey_def Let_def)
qed

lemma fold_smoothKey_keeps:
  "k \<notin> set keys \<or> \<not> has_number window k \<Longrightarrow>
   fst (fold (smoothKey window) keys (sm, h)) k = sm k"
proof (induction keys arbitrary: sm h)
  case Nil
  then show ?case by simp
next
  case (Cons a keys)
  obtain sm' h' where st: "smoothKey window a (sm, h) = (sm', h')"
    by (cases "smoothKey window a (sm, h)")
  have "sm' k = sm k"
  proof (cases "k = a")
    case True
    with Cons.prems have "\<not> has_number window a" by simp
    with st show ?thesis by (simp add: smoothKey_no_number)
  next
    case False
    with st smoothKey_other [of k a window sm h] show ?thesis by simp
  qed
  moreover from Cons.prems have "k \<notin> set keys \<or> \<not> has_number window k" by auto
  ultimately show ?case
    using Cons.IH [of sm' h'] st by simp
qed

lemma fold_smoothKey_number:
  "k \<in> set keys \<Longrightarrow> has_number window k \<Longrightarrow>
   \<exists>v. fst (fold (smoothKey window) keys (sm, h)) k = Some (Some v)"
proof (induction keys arbitrary: sm h)
  case Nil
  then show ?case by simp
next
  case (Cons a keys)
  obtain sm' h' where st: "smoothKey window a (sm, h) = (sm', h')"
    by (cases "smoothKey window a (sm, h)")
  show ?case
  proof (cases "k \<in> set keys")
    case True
    with Cons.IH [of sm' h'] Cons.prems st show ?thesis by simp
  next
    case False
    with Cons.prems have ka: "k = a" by simp
    from smoothKey_number [of window a sm h] Cons.prems ka st
    obtain v where "sm' k = Some (Some v)" by auto
    moreover from False have "fst (fold (smoothKey window) keys (sm', h')) k = sm' k"
      by (simp add: fold_smoothKey_keeps)
    ultimately show ?thesis using st by simp
  qed
qed

lemma peakStep_length: "length (fst (peakStep keys rows i st)) = Suc (length (fst st))"
  by (cases st) (simp add: peakStep_def Let_def)

lemma peak_fold_length: "length (fst (fold (peakStep keys rows) [0 ..< n] ([], Map.empty))) = n"
  by (induction n) (simp_all add: peakStep_length)

lemma peakStep_prefix:
  "i < length (fst st) \<Longrightarrow> fst (peakStep keys rows j st) ! i = fst st ! i"
  by (cases st) (simp add: peakStep_def Let_def nth_append)

lemma peak_fold_prefix:
  "i < n \<Longrightarrow> n \<le> m \<Longrightarrow>
   fst (fold (peakStep keys rows) [0 ..< m] ([], Map.empty)) ! i
     = fst (fold (peakStep keys rows) [0 ..< n] ([], Map.empty)) ! i"
proof (induction m)
  case 0
  then show ?case by simp
next
  case (Suc m)
  show ?case
  proof (cases "n = Suc m")
    case True
    then show ?thesis by simp
  next
    case False
    with Suc.prems have nm: "n \<le> m" by simp
    with Suc.prems have "i < length (fst (fold (peakStep keys rows) [0 ..< m] ([], Map.empty)))"
      by (simp add: peak_fold_length)
    then have "fst (fold (peakStep keys rows) [0 ..< Suc m] ([], Map.empty)) ! i
             = fst (fold (peakStep keys rows) [0 ..< m] ([], Map.empty)) ! i"
      by (simp add: peakStep_prefix)
    with Suc.IH [OF Suc.prems(1) nm] show ?thesis by simp
  qed
qed

lemma peakCut_nth:
  assumes "i < length rows"
  shows "peakCut keys rows ! i =
           (if i < windowSize - 1 then rows ! i
            else fst (fold (smoothKey (window_at rows i)) keys
                        (rows ! i, snd (fold (peakStep keys rows) [0 ..< i] ([], Map.empty)))))"
proof -
  obtain out h where st: "fold (peakStep keys rows) [0 ..< i] ([], Map.empty) = (out, h)"
    by (cases "fold (peakStep keys rows) [0 ..< i] ([], Map.empty)")
  have len: "length out = i"
    using peak_fold_length [of keys rows i] st by simp
  have "peakCut keys rows ! i = fst (fold (peakStep keys rows) [0 ..< Suc i] ([], Map.empty)) ! i"
    unfolding peakCut_def using assms
    by (intro peak_fold_prefix) simp_all
  also have "\<dots> = (if i < windowSize - 1 then rows ! i
            else fst (fold (smoothKey (window_at rows i)) keys (rows ! i, h)))"
    using st len by (simp add: peakStep_def Let_def window_at_def nth_append)
  finally show ?thesis using st by simp
qed

text \<open>
  C8, amended. The filter returns as many rows as it is given and leaves the first ten
  unchanged. In every row a key that is not processed keeps its entry, and so does a
  processed key when no row of the window of eleven rows that ends at the row carries a
  number for it: there \<open>null\<close> stays \<open>null\<close> and missing stays missing. But from the
  eleventh row on, a processed key for which some row of the window carries a number
  gets a number, whatever the row held.
\<close>

theorem peakCut_frame:
  "length (peakCut keys rows) = length rows \<and>
   (\<forall>i < length rows.
      (i < 10 \<longrightarrow> peakCut keys rows ! i = rows ! i) \<and>
      (\<forall>k. k \<notin> set keys \<or> \<not> has_number (window_at rows i) k \<longrightarrow>
            (peakCut keys rows ! i) k = (rows ! i) k) \<and>
      (\<forall>k. 10 \<le> i \<and> k \<in> set keys \<and> has_number (window_at rows i) k \<longrightarrow>
            (\<exists>v. (peakCut keys rows ! i) k = Some (Some v))))"
proof (intro conjI allI impI)
  show "length (peakCut keys rows) = length rows"
    by (simp add: peakCut_def peak_fold_length)
next
  fix i assume "i < length rows" "i < 10"
  then show "peakCut keys rows ! i = rows ! i"
    by (simp add: peakCut_nth windowSize_def)
next
  fix i k assume i: "i < length rows"
    and k: "k \<notin> set keys \<or> \<not> has_number (window_at rows i) k"
  from k show "(peakCut keys rows ! i) k = (rows ! i) k"
    by (simp add: peakCut_nth [OF i] fold_smoothKey_keeps)
next
  fix i k assume i: "i < length rows"
    and k: "10 \<le> i \<and> k \<in> set keys \<and> has_number (window_at rows i) k"
  then have "\<not> i < windowSize - 1" by (simp add: windowSize_def)
  with k show "\<exists>v. (peakCut keys rows ! i) k = Some (Some v)"
    by (simp add: peakCut_nth [OF i] fold_smoothKey_number)
qed

lemma gap_rows_facts:
  "length gap_rows = 11" "(gap_rows ! 10) ''a'' = Some None"
  "has_number (window_at gap_rows 10) ''a''"
  by (simp_all add: gap_rows_def nth_append window_at_def windowSize_def has_number_def
      list_ex_iff)

lemma gap_rows_processed:
  "processedData gap_rows [] [''a''] True = peakCut [''a''] gap_rows"
  by (simp add: processedData_def)

lemma replicate_ten: "replicate 10 (x::'a) = [x, x, x, x, x, x, x, x, x, x]"
  by (simp add: numeral_eq_Suc)

lemma ten_tens_processValues: "processValues [10, 10, 10, 10, 10, 10, 10, 10, 10, 10] = Some 10"
  by (simp add: processValues_def getMedian_def alpha_def Let_def)

lemma gap_rows_history:
  "fold (peakStep [''a''] gap_rows) [0 ..< 10] ([], Map.empty) = (take 10 gap_rows, Map.empty)"
  by (simp add: peakStep_def windowSize_def upt_rec gap_rows_def replicate_ten)

text \<open>
  C8, as stated, fails: after ten rows with the value 10 for a key, a row with \<open>null\<close>
  for that key leaves the filter with the value 10.
\<close>

theorem peakCut_fabricates_counterexample:
  "(gap_rows ! 10) ''a'' = Some None \<and>
   (processedData gap_rows [] [''a''] True ! 10) ''a'' = Some (Some 10)"
proof -
  have "(10::nat) < length gap_rows" by (simp add: gap_rows_facts)
  then have "peakCut [''a''] gap_rows ! 10 =
      fst (fold (smoothKey (window_at gap_rows 10)) [''a'']
            (gap_rows ! 10, snd (fold (peakStep [''a''] gap_rows) [0 ..< 10] ([], Map.empty))))"
    by (simp add: peakCut_nth windowSize_def)
  then have "(processedData gap_rows [] [''a''] True ! 10) ''a'' = Some (Some 10)"
    unfolding gap_rows_processed gap_rows_history
    by (simp add: smoothKey_def window_at_def windowSize_def gap_rows_def replicate_ten
        ten_tens_processValues)
  then show ?thesis by (simp add: gap_rows_facts)
qed

theorem peakCut_frame_witness:
  "peakCut [''a''] gap_rows ! 3 = gap_rows ! 3 \<and>
   (peakCut [''a''] gap_rows ! 10) ''b'' = (gap_rows ! 10) ''b'' \<and>
   (\<exists>v. (peakCut [''a''] gap_rows ! 10) ''a'' = Some (Some v))"
proof -
  have a: "(3::nat) < length gap_rows" "(3::nat) < 10" "(10::nat) < length gap_rows"
    "''b'' \<notin> set [''a''] \<or> \<not> has_number (window_at gap_rows 10) ''b''"
    "(10::nat) \<le> 10 \<and> ''a'' \<in> set [''a''] \<and> has_number (window_at gap_rows 10) ''a''"
    by (simp_all add: gap_rows_facts)
  note t = peakCut_frame [of "[''a'']" gap_rows, THEN conjunct2, rule_format]
  from t [OF a(1), THEN conjunct1, rule_format, OF a(2)]
    t [OF a(3), THEN conjunct2, THEN conjunct1, rule_format, OF a(4)]
    t [OF a(3), THEN conjunct2, THEN conjunct2, rule_format, OF a(5)]
  show ?thesis by blast
qed

subsection \<open>Offline spans and the timeline\<close>

lemma sorted_hd_le_last: "sorted (ts :: real list) \<Longrightarrow> ts \<noteq> [] \<Longrightarrow> hd ts \<le> last ts"
  by (cases ts) (auto)

lemma internalSpans_bounds:
  assumes "sorted ts" "0 < iv"
  shows "sorted_wrt (\<lambda>a b. span_end a < span_start b) (internalSpans ts re iv th) \<and>
         (\<forall>s \<in> set (internalSpans ts re iv th).
            hd ts + iv \<le> span_start s \<and> span_start s < span_end s \<and> span_end s \<le> last ts)"
  using assms
proof (induction ts re iv th rule: internalSpans.induct)
  case (1 prev nxt ts re iv th)
  from "1.prems" have s: "sorted (nxt # ts)" and pn: "prev \<le> nxt" by simp_all
  note ih = "1.IH" [OF s "1.prems"(2)]
  have later: "nxt + iv \<le> span_start x \<and> span_start x < span_end x \<and> span_end x \<le> last (nxt # ts)"
    if "x \<in> set (internalSpans (nxt # ts) re iv th)" for x
    using ih that by auto
  show ?case
  proof (cases "nxt - prev > th \<and> prev + iv < min nxt re")
    case True
    then have e: "internalSpans (prev # nxt # ts) re iv th =
        \<lparr>span_start = prev + iv, span_end = min nxt re\<rparr> # internalSpans (nxt # ts) re iv th"
      by (simp add: Let_def)
    have "min nxt re < span_start x" if "x \<in> set (internalSpans (nxt # ts) re iv th)" for x
      using later [OF that] "1.prems"(2) by (simp add: min_def split: if_splits)
    moreover have "min nxt re \<le> last (nxt # ts)"
    proof -
      have "hd (nxt # ts) \<le> last (nxt # ts)"
        using s by (intro sorted_hd_le_last) simp_all
      then show ?thesis by simp
    qed
    moreover have "prev + iv \<le> span_start x" if "x \<in> set (internalSpans (nxt # ts) re iv th)" for x
      using later [OF that] pn by simp
    ultimately show ?thesis
      unfolding e using ih True later by auto
  next
    case False
    then have e: "internalSpans (prev # nxt # ts) re iv th = internalSpans (nxt # ts) re iv th"
      by (auto simp: Let_def)
    have "prev + iv \<le> span_start x" if "x \<in> set (internalSpans (nxt # ts) re iv th)" for x
      using later [OF that] pn by simp
    then show ?thesis
      unfolding e using ih later by auto
  qed
qed simp_all

lemma apart_strengthen:
  "sorted_wrt (\<lambda>a b. span_end a < span_start b) xs \<Longrightarrow>
   \<forall>x \<in> set xs. span_start x < span_end x \<Longrightarrow>
   sorted_wrt (\<lambda>a b. span_start a < span_start b \<and> span_end a < span_start b) xs"
  by (induction xs) auto

lemma spans_apart_buildOfflineSpans: "spans_apart (buildOfflineSpans obs rs re iv)"
proof (cases "rs \<ge> re \<or> iv \<le> 0")
  case True
  then show ?thesis by (auto simp: buildOfflineSpans_def spans_apart_def)
next
  case False
  then have g: "rs < re" "0 < iv" by simp_all
  show ?thesis
  proof (cases "obs = []")
    case True
    with g show ?thesis by (simp add: buildOfflineSpans_def spans_apart_def)
  next
    case False
    define ts where "ts = sort obs"
    define th where "th = iv * OFFLINE_GAP_MULTIPLIER"
    have st: "sorted ts"
      by (simp add: ts_def)
    have "length ts = length obs"
      by (simp add: ts_def)
    with False have ne: "ts \<noteq> []"
      by auto
    have thp: "0 < th" using g by (simp add: th_def OFFLINE_GAP_MULTIPLIER_def)
    have hl: "hd ts \<le> last ts" using st ne by (rule sorted_hd_le_last)
    define lead where "lead = (if hd ts - rs > th then [\<lparr>span_start = rs, span_end = hd ts\<rparr>] else [])"
    define trail where "trail = (if re - last ts > th
                                 then (if last ts + iv < re
                                       then [\<lparr>span_start = last ts + iv, span_end = re\<rparr>] else [])
                                 else [])"
    have c: "\<not> (rs \<ge> re \<or> iv \<le> 0)" "length obs \<noteq> 0"
      using g False by simp_all
    have e: "buildOfflineSpans obs rs re iv = lead @ internalSpans ts re iv th @ trail"
      unfolding buildOfflineSpans_def Let_def lead_def trail_def ts_def th_def
      by (simp only: c if_False)
    note ib = internalSpans_bounds [OF st g(2), of re th]
    have mid: "hd ts + iv \<le> span_start x \<and> span_start x < span_end x \<and> span_end x \<le> last ts"
      if "x \<in> set (internalSpans ts re iv th)" for x
      using ib that by blast
    have mid_sorted: "sorted_wrt (\<lambda>a b. span_end a < span_start b) (internalSpans ts re iv th)"
      using ib by blast
    have l: "span_start x = rs \<and> span_end x = hd ts \<and> rs < hd ts" if "x \<in> set lead" for x
      using that thp by (auto simp: lead_def split: if_splits)
    have t: "span_start x = last ts + iv \<and> span_end x = re \<and> last ts + iv < re"
      if "x \<in> set trail" for x
      using that by (auto simp: trail_def split: if_splits)
    have l1: "sorted_wrt (\<lambda>a b. span_end a < span_start b) lead"
      by (simp add: lead_def)
    have t1: "sorted_wrt (\<lambda>a b. span_end a < span_start b) trail"
      by (simp add: trail_def)
    have lm: "\<forall>x \<in> set lead. \<forall>y \<in> set (internalSpans ts re iv th). span_end x < span_start y"
    proof (intro ballI)
      fix x y assume "x \<in> set lead" "y \<in> set (internalSpans ts re iv th)"
      then show "span_end x < span_start y" using l [of x] mid [of y] g by simp
    qed
    have lt: "\<forall>x \<in> set lead. \<forall>y \<in> set trail. span_end x < span_start y"
    proof (intro ballI)
      fix x y assume "x \<in> set lead" "y \<in> set trail"
      then show "span_end x < span_start y" using l [of x] t [of y] g hl by simp
    qed
    have mt: "\<forall>x \<in> set (internalSpans ts re iv th). \<forall>y \<in> set trail. span_end x < span_start y"
    proof (intro ballI)
      fix x y assume "x \<in> set (internalSpans ts re iv th)" "y \<in> set trail"
      then show "span_end x < span_start y" using mid [of x] t [of y] g by simp
    qed
    have "sorted_wrt (\<lambda>a b. span_end a < span_start b) (internalSpans ts re iv th @ trail)"
      using mid_sorted t1 mt by (simp add: sorted_wrt_append)
    moreover have "\<forall>x \<in> set lead. \<forall>y \<in> set (internalSpans ts re iv th @ trail).
        span_end x < span_start y"
      using lm lt by (simp add: ball_Un)
    ultimately have apart: "sorted_wrt (\<lambda>a b. span_end a < span_start b) (buildOfflineSpans obs rs re iv)"
      unfolding e using l1 by (simp add: sorted_wrt_append)
    have pos: "\<forall>x \<in> set (buildOfflineSpans obs rs re iv). span_start x < span_end x"
    proof
      fix x assume "x \<in> set (buildOfflineSpans obs rs re iv)"
      then have "x \<in> set lead \<or> x \<in> set (internalSpans ts re iv th) \<or> x \<in> set trail"
        unfolding e by simp
      then show "span_start x < span_end x"
        using l [of x] mid [of x] t [of x] by auto
    qed
    have "sorted_wrt (\<lambda>a b. span_start a < span_start b \<and> span_end a < span_start b)
            (buildOfflineSpans obs rs re iv)"
      using apart pos by (rule apart_strengthen)
    with pos show ?thesis
      by (simp add: spans_apart_def list_all_iff)
  qed
qed

lemma set_add_props: "set (set_add s x) = insert x (set s)" "distinct s \<Longrightarrow> distinct (set_add s x)"
  by (auto simp: set_add_def)

lemma fold_set_add:
  "set (fold (\<lambda>x s. set_add s x) xs s) = set s \<union> set xs \<and>
   (distinct s \<longrightarrow> distinct (fold (\<lambda>x s. set_add s x) xs s))"
  by (induction xs arbitrary: s) (auto simp: set_add_props)

lemma fold_filter_set_add:
  "set (fold (\<lambda>x s. if P x then set_add s x else s) xs s) = set s \<union> {x \<in> set xs. P x} \<and>
   (distinct s \<longrightarrow> distinct (fold (\<lambda>x s. if P x then set_add s x else s) xs s))"
  by (induction xs arbitrary: s) (auto simp: set_add_props)

lemma collectObserved_fold:
  "set (fold (\<lambda>item s. fold (\<lambda>time s. if rs \<le> time \<and> time \<le> re then set_add s time else s)
            (created_at item) s) ms s0)
     = set s0 \<union> {t \<in> all_times ms. rs \<le> t \<and> t \<le> re} \<and>
   (distinct s0 \<longrightarrow>
      distinct (fold (\<lambda>item s. fold (\<lambda>time s. if rs \<le> time \<and> time \<le> re then set_add s time else s)
            (created_at item) s) ms s0))"
proof (induction ms arbitrary: s0)
  case Nil
  then show ?case by (simp add: all_times_def)
next
  case (Cons m ms)
  let ?s1 = "fold (\<lambda>time s. if rs \<le> time \<and> time \<le> re then set_add s time else s) (created_at m) s0"
  have a: "set ?s1 = set s0 \<union> {x \<in> set (created_at m). rs \<le> x \<and> x \<le> re}"
    and b: "distinct s0 \<longrightarrow> distinct ?s1"
    using fold_filter_set_add [of "\<lambda>t. rs \<le> t \<and> t \<le> re" "created_at m" s0] by blast+
  from Cons.IH [of ?s1] a b show ?case
    by (auto simp: all_times_def)
qed

lemma collectObserved_props:
  "set (collectObserved ms rs re) = {t \<in> all_times ms. rs \<le> t \<and> t \<le> re}"
  "distinct (collectObserved ms rs re)"
  using collectObserved_fold [of rs re ms "[]"] by (simp_all add: collectObserved_def)

text \<open>
  C2. For every list of observed times, every range and every interval, and so for every
  range with the start before the end and every positive interval, the spans of
  \<open>buildOfflineSpans\<close> are non-empty, each ends before every later one starts, and their
  starts ascend. For every list of series the same holds of the spans of
  \<open>buildTimelineData\<close>, whose timeline is strictly ascending, hence free of duplicates,
  and holds exactly the observed timestamps within the range and the synthetic offline
  points.
\<close>

theorem offline_spans_and_timeline:
  "spans_apart (buildOfflineSpans observedTimes rangeStart rangeEnd interval) \<and>
   (let td = buildTimelineData rawData rangeStart rangeEnd
    in spans_apart (offlineSpans td) \<and>
       sorted_wrt (<) (timeline td) \<and>
       set (timeline td) =
         {t \<in> all_times rawData. rangeStart \<le> t \<and> t \<le> rangeEnd}
           \<union> set (buildOfflinePoints (offlineSpans td) (intervalMs td)))"
proof -
  define observed where "observed = collectObserved rawData rangeStart rangeEnd"
  define iv where "iv = getTypicalIntervalMs rawData"
  define spans where "spans = buildOfflineSpans (sort observed) rangeStart rangeEnd iv"
  define tset where "tset = fold (\<lambda>time s. set_add s time) (buildOfflinePoints spans iv) (new_Set (sort observed))"
  have td: "buildTimelineData rawData rangeStart rangeEnd =
      \<lparr>timeline = sort tset, offlineSpans = spans, observedSet = observed, intervalMs = iv\<rparr>"
    by (simp add: buildTimelineData_def Let_def observed_def iv_def spans_def tset_def)
  have ns: "set (new_Set (sort observed)) = set observed" "distinct (new_Set (sort observed))"
    using fold_set_add [of "sort observed" "[]"] by (simp_all add: new_Set_def)
  have ts: "set tset = set observed \<union> set (buildOfflinePoints spans iv)" "distinct tset"
    unfolding tset_def
    using fold_set_add [of "buildOfflinePoints spans iv" "new_Set (sort observed)"] ns by simp_all
  have "sorted_wrt (<) (sort tset)"
    using ts(2) by (simp add: strict_sorted_iff)
  moreover have "spans_apart spans"
    unfolding spans_def by (rule spans_apart_buildOfflineSpans)
  moreover have "set (sort tset) = {t \<in> all_times rawData. rangeStart \<le> t \<and> t \<le> rangeEnd}
           \<union> set (buildOfflinePoints spans iv)"
    using ts(1) by (simp add: observed_def collectObserved_props)
  ultimately show ?thesis
    unfolding td Let_def
    by (simp add: spans_apart_buildOfflineSpans)
qed

theorem offline_spans_and_timeline_witness:
  "spans_apart [\<lparr>span_start = 120000, span_end = 300000\<rparr>] \<and>
   sorted_wrt (<) [0, 60000, 210000, 300000 :: real]"
proof -
  have "buildOfflineSpans [0, 60000, 300000] 0 300000 60000
     = [\<lparr>span_start = 120000, span_end = 300000\<rparr>]"
    by (simp add: buildOfflineSpans_def OFFLINE_GAP_MULTIPLIER_def)
  with offline_spans_and_timeline [of "[0, 60000, 300000]" 0 300000 60000 "[scenario_series]"]
  show ?thesis
    by (simp add: scenario_timeline)
qed

subsection \<open>The formatter\<close>

lemma before_count_le: "before_count ps t \<le> length ps"
  by (simp add: before_count_def length_takeWhile_le)

lemma before_count_less:
  assumes "k < before_count ps t"
  shows "fst (ps ! k) < t"
proof -
  from assms have "takeWhile (\<lambda>p. fst p < t) ps ! k \<in> set (takeWhile (\<lambda>p. fst p < t) ps)"
    by (simp add: before_count_def)
  then have "fst (takeWhile (\<lambda>p. fst p < t) ps ! k) < t"
    by (auto dest: set_takeWhileD)
  with assms show ?thesis
    by (simp add: before_count_def takeWhile_nth)
qed

lemma before_count_stop:
  "before_count ps t < length ps \<Longrightarrow> \<not> fst (ps ! before_count ps t) < t"
  unfolding before_count_def by (rule nth_length_takeWhile)

lemma before_count_mono:
  assumes "t \<le> t'"
  shows "before_count ps t \<le> before_count ps t'"
  unfolding before_count_def [of ps t']
proof (rule length_takeWhile_less_P_nth)
  fix i assume "i < before_count ps t"
  then have "fst (ps ! i) < t" by (rule before_count_less)
  with assms show "fst (ps ! i) < t'" by simp
next
  show "before_count ps t \<le> length ps" by (rule before_count_le)
qed

lemma advance_to_count:
  "k \<le> before_count ps t \<Longrightarrow>
   advance ps t (k, pp) =
     (before_count ps t, if k = before_count ps t then pp else Some (ps ! (before_count ps t - 1)))"
proof (induction "before_count ps t - k" arbitrary: k pp)
  case 0
  then have k: "k = before_count ps t" by simp
  have "\<not> (k < length ps \<and> fst (ps ! k) < t)"
    unfolding k using before_count_stop [of ps t] by blast
  then show ?case
    using k by (subst advance.simps) auto
next
  case (Suc n)
  then have lt: "k < before_count ps t" by simp
  then have "k < length ps" using before_count_le [of ps t] by simp
  moreover have "fst (ps ! k) < t" using lt by (rule before_count_less)
  ultimately have "advance ps t (k, pp) = advance ps t (k + 1, Some (ps ! k))"
    by (subst advance.simps) simp
  also have "\<dots> = (before_count ps t,
      if k + 1 = before_count ps t then Some (ps ! k) else Some (ps ! (before_count ps t - 1)))"
    using Suc.hyps(2) lt by (intro Suc.hyps(1)) simp_all
  finally have r: "advance ps t (k, pp) = (before_count ps t,
      if k + 1 = before_count ps t then Some (ps ! k) else Some (ps ! (before_count ps t - 1)))" .
  have "k + 1 = before_count ps t \<Longrightarrow> ps ! k = ps ! (before_count ps t - 1)"
    by (metis add_diff_cancel_right')
  with r lt show ?case by auto
qed

lemma advance_cursor:
  assumes "cursor_ok ps cur" "fst cur \<le> before_count ps t"
  shows "advance ps t cur = (before_count ps t, prev_at ps t)"
proof -
  obtain k pp where c: "cur = (k, pp)" by (cases cur)
  with assms show ?thesis
    by (auto simp: advance_to_count cursor_ok_def prev_at_def)
qed

lemma cursor_ok_count: "cursor_ok ps (before_count ps t, prev_at ps t)"
  by (simp add: cursor_ok_def prev_at_def before_count_le)

lemma seriesStep_written:
  assumes "cursor_ok (validPoints item) cur" "fst cur \<le> before_count (validPoints item) t"
  shows "\<exists>cur'. seriesStep item observed interval t (result, cur) =
           (obj_set result t (written item interval t (row_at result observed t)), cur') \<and>
         cursor_ok (validPoints item) cur' \<and> fst cur' \<le> before_count (validPoints item) t"
proof -
  let ?row = "row_at result observed t"
  consider (off) "?row OFFLINE_KEY \<noteq> Some None"
    | (sample) "?row OFFLINE_KEY = Some None" "t \<in> set (created_at item)"
    | (other) "?row OFFLINE_KEY = Some None" "t \<notin> set (created_at item)"
    by blast
  then show ?thesis
  proof cases
    case off
    then have "seriesStep item observed interval t (result, cur) =
           (obj_set result t (written item interval t ?row), cur)"
      by (simp add: seriesStep_def written_def row_at_def Let_def)
    with assms show ?thesis by blast
  next
    case sample
    then have "seriesStep item observed interval t (result, cur) =
           (obj_set result t (written item interval t ?row), cur)"
      by (simp add: seriesStep_def written_def row_at_def Let_def)
    with assms show ?thesis by blast
  next
    case other
    have a: "advance (validPoints item) t cur =
        (before_count (validPoints item) t, prev_at (validPoints item) t)"
      using assms by (rule advance_cursor)
    from other have "seriesStep item observed interval t (result, cur) =
           (obj_set result t (written item interval t ?row),
            (before_count (validPoints item) t, prev_at (validPoints item) t))"
      by (simp add: seriesStep_def written_def row_at_def Let_def a next_at_def)
    then show ?thesis
      using cursor_ok_count [of "validPoints item" t] by auto
  qed
qed

lemma map_of_obj_set: "map_of (obj_set r k v) k' = (if k' = k then Some v else map_of r k')"
  by (induction r) auto

lemma row_at_obj_set: "k' \<noteq> k \<Longrightarrow> row_at (obj_set r k v) observed k' = row_at r observed k'"
  by (simp add: row_at_def map_of_obj_set)

lemma fold_seriesStep:
  "sorted_wrt (<) ts \<Longrightarrow> cursor_ok (validPoints item) cur \<Longrightarrow>
   \<forall>t \<in> set ts. fst cur \<le> before_count (validPoints item) t \<Longrightarrow>
   map_of (fst (fold (seriesStep item observed interval) ts (result, cur))) t =
     (if t \<in> set ts then Some (written item interval t (row_at result observed t))
      else map_of result t)"
proof (induction ts arbitrary: result cur)
  case Nil
  then show ?case by simp
next
  case (Cons a ts)
  from Cons.prems(2,3) obtain cur' where
    s: "seriesStep item observed interval a (result, cur) =
           (obj_set result a (written item interval a (row_at result observed a)), cur')"
    and ok: "cursor_ok (validPoints item) cur'"
    and le: "fst cur' \<le> before_count (validPoints item) a"
    using seriesStep_written [of item cur a observed interval result] by auto
  from Cons.prems(1) have st: "sorted_wrt (<) ts" and lt: "\<forall>x \<in> set ts. a < x" by simp_all
  have le': "\<forall>x \<in> set ts. fst cur' \<le> before_count (validPoints item) x"
  proof
    fix x assume "x \<in> set ts"
    with lt have "a \<le> x" by auto
    then have "before_count (validPoints item) a \<le> before_count (validPoints item) x"
      by (rule before_count_mono)
    with le show "fst cur' \<le> before_count (validPoints item) x" by simp
  qed
  note ih = Cons.IH [OF st ok le', of "obj_set result a (written item interval a (row_at result observed a))"]
  show ?case
  proof (cases "t = a")
    case True
    with lt have "t \<notin> set ts" by auto
    with ih True s show ?thesis by (simp add: map_of_obj_set)
  next
    case False
    with ih s show ?thesis by (simp add: map_of_obj_set row_at_obj_set)
  qed
qed

lemma formatSeries_lookup:
  assumes "sorted_wrt (<) ts"
  shows "map_of (formatSeries item ts observed interval result) t =
     (if t \<in> set ts then Some (written item interval t (row_at result observed t))
      else map_of result t)"
  unfolding formatSeries_def
  by (rule fold_seriesStep [OF assms]) (simp_all add: cursor_ok_def)

lemma map_fst_validPoints:
  "map fst (validPoints item) =
     map ((!) (created_at item))
       (filter (\<lambda>i. nth_opt (avg_delay item) i \<noteq> None) [0 ..< length (created_at item)])"
proof -
  have "map fst (concat (map (\<lambda>i. case g i of None \<Rightarrow> [] | Some v \<Rightarrow> [(f i, v)]) is))
        = map f (filter (\<lambda>i. g i \<noteq> None) is)"
    for g :: "nat \<Rightarrow> real option" and f :: "nat \<Rightarrow> real" and "is"
    by (induction "is") (auto split: option.splits)
  then show ?thesis by (simp add: validPoints_def)
qed

lemma sorted_validPoints:
  assumes "sorted (created_at item)"
  shows "sorted (map fst (validPoints item))"
proof -
  let ?xs = "created_at item"
  have "sorted_wrt (\<lambda>i j. ?xs ! i \<le> ?xs ! j) [0 ..< length ?xs]"
    using assms by (auto simp: sorted_wrt_iff_nth_less sorted_iff_nth_mono)
  then have "sorted_wrt (\<lambda>i j. ?xs ! i \<le> ?xs ! j)
      (filter (\<lambda>i. nth_opt (avg_delay item) i \<noteq> None) [0 ..< length ?xs])"
    by (rule sorted_wrt_filter)
  then show ?thesis
    by (simp add: map_fst_validPoints sorted_wrt_map)
qed

lemma validPoints_times: "fst ` set (validPoints item) \<subseteq> set (created_at item)"
proof -
  have "set (map fst (validPoints item)) \<subseteq> set (created_at item)"
    unfolding map_fst_validPoints by auto
  then show ?thesis by simp
qed

lemma sorted_fst_nth:
  "sorted (map fst ps) \<Longrightarrow> i \<le> j \<Longrightarrow> j < length ps \<Longrightarrow> fst (ps ! i) \<le> fst (ps ! j)"
  using sorted_nth_mono [of "map fst ps" i j] by simp

lemma before_count_iff:
  assumes s: "sorted (map fst ps)" and j: "j < length ps"
  shows "fst (ps ! j) < t \<longleftrightarrow> j < before_count ps t"
proof
  assume lt: "fst (ps ! j) < t"
  show "j < before_count ps t"
  proof (rule ccontr)
    assume "\<not> j < before_count ps t"
    then have c: "before_count ps t \<le> j" by simp
    with j have "before_count ps t < length ps" by simp
    then have "\<not> fst (ps ! before_count ps t) < t" by (rule before_count_stop)
    moreover have "fst (ps ! before_count ps t) \<le> fst (ps ! j)"
      using s c j by (rule sorted_fst_nth)
    ultimately show False using lt by simp
  qed
next
  assume "j < before_count ps t"
  then show "fst (ps ! j) < t" by (rule before_count_less)
qed

lemma prev_at_nearest:
  assumes s: "sorted (map fst ps)" and p: "prev_at ps t = Some p"
  shows "nearest_before ps t p"
proof -
  let ?c = "before_count ps t"
  from p have c: "0 < ?c" and pe: "p = ps ! (?c - 1)"
    by (auto simp: prev_at_def split: if_splits)
  have cl: "?c \<le> length ps" by (rule before_count_le)
  with c have "p \<in> set ps" unfolding pe by simp
  moreover from c have "fst p < t" unfolding pe by (intro before_count_less) simp
  moreover have "fst q \<le> fst p" if "q \<in> set ps" "fst q < t" for q
  proof -
    from that(1) obtain j where j: "j < length ps" "q = ps ! j"
      by (auto simp: in_set_conv_nth)
    with that(2) s have "j < ?c" by (simp add: before_count_iff)
    then have "j \<le> ?c - 1" by simp
    moreover from c cl have "?c - 1 < length ps" by simp
    ultimately show ?thesis unfolding pe j(2) using s by (intro sorted_fst_nth)
  qed
  ultimately show ?thesis
    by (auto simp: nearest_before_def list_all_iff)
qed

lemma prev_at_none:
  assumes s: "sorted (map fst ps)" and p: "prev_at ps t = None" and q: "q \<in> set ps"
  shows "\<not> fst q < t"
proof -
  from p have c: "before_count ps t = 0" by (auto simp: prev_at_def split: if_splits)
  from q obtain j where j: "j < length ps" "q = ps ! j"
    by (auto simp: in_set_conv_nth)
  from before_count_iff [OF s j(1), of t] c j(2) show ?thesis by simp
qed

lemma next_at_nearest:
  assumes s: "sorted (map fst ps)" and n: "next_at ps t = Some n" and t: "t \<notin> fst ` set ps"
  shows "nearest_after ps t n"
proof -
  let ?c = "before_count ps t"
  from n have c: "?c < length ps" and ne: "n = ps ! ?c"
    by (auto simp: next_at_def split: if_splits)
  from c have mem: "n \<in> set ps" unfolding ne by simp
  from c have "\<not> fst n < t" unfolding ne by (rule before_count_stop)
  moreover from mem t have "fst n \<noteq> t" by auto
  ultimately have "t < fst n" by simp
  moreover have "fst n \<le> fst q" if "q \<in> set ps" "t < fst q" for q
  proof -
    from that(1) obtain j where j: "j < length ps" "q = ps ! j"
      by (auto simp: in_set_conv_nth)
    from that(2) have "\<not> fst (ps ! j) < t" unfolding j(2) by simp
    with s j(1) have "\<not> j < ?c" by (simp add: before_count_iff)
    then have "?c \<le> j" by simp
    then show ?thesis unfolding ne j(2) using s j(1) by (intro sorted_fst_nth)
  qed
  ultimately show ?thesis
    using mem by (auto simp: nearest_after_def list_all_iff)
qed

lemma next_at_none:
  assumes n: "next_at ps t = None" and q: "q \<in> set ps"
  shows "fst q < t"
proof -
  from n have c: "before_count ps t = length ps"
    using before_count_le [of ps t] by (auto simp: next_at_def split: if_splits)
  from q obtain j where j: "j < length ps" "q = ps ! j"
    by (auto simp: in_set_conv_nth)
  with c have "j < before_count ps t" by simp
  then show ?thesis unfolding j(2) by (rule before_count_less)
qed

lemma nearest_before_unique:
  "nearest_before ps t p \<Longrightarrow> nearest_before ps t p' \<Longrightarrow> fst p = fst p'"
  by (force simp: nearest_before_def list_all_iff intro: antisym)

lemma nearest_after_unique:
  "nearest_after ps t n \<Longrightarrow> nearest_after ps t n' \<Longrightarrow> fst n = fst n'"
  by (force simp: nearest_after_def list_all_iff intro: antisym)

lemma lerp_between:
  fixes a b r :: real
  assumes "0 < r" "r < 1"
  shows "min a b \<le> a + r * (b - a) \<and> a + r * (b - a) \<le> max a b \<and>
         (a \<noteq> b \<longrightarrow> min a b < a + r * (b - a) \<and> a + r * (b - a) < max a b)"
proof -
  define d where "d = r * (b - a)"
  consider "a < b" | "a = b" | "b < a" by linarith
  then have "min a b \<le> a + d \<and> a + d \<le> max a b \<and>
         (a \<noteq> b \<longrightarrow> min a b < a + d \<and> a + d < max a b)"
  proof cases
    case 1
    then have "0 < d"
      using assms by (simp add: d_def)
    moreover have "d < b - a"
      using assms 1 mult_strict_right_mono [of r 1 "b - a"] by (simp add: d_def)
    ultimately show ?thesis using 1 by (simp add: min_def max_def)
  next
    case 2
    then show ?thesis by (simp add: d_def)
  next
    case 3
    then have "0 < r * (a - b)"
      using assms by simp
    moreover have "r * (a - b) < a - b"
      using assms 3 mult_strict_right_mono [of r 1 "a - b"] by simp
    moreover have "d = - (r * (a - b))"
      by (simp add: d_def algebra_simps)
    ultimately have "d < 0" "b - a < d" by linarith+
    then show ?thesis using 3 by (simp add: min_def max_def)
  qed
  then show ?thesis unfolding d_def by blast
qed

lemma interpolate_ok:
  assumes s: "sorted (map fst ps)" and t: "t \<notin> fst ` set ps"
  shows "interpolation_ok ps interval t (interpolate (prev_at ps t) (next_at ps t) interval t)"
proof (cases "prev_at ps t")
  case None
  then have "\<forall>q \<in> set ps. \<not> fst q < t"
    using prev_at_none [OF s] by blast
  then have "\<not> nearest_before ps t p" for p
    by (auto simp: nearest_before_def)
  with None show ?thesis
    by (simp add: interpolation_ok_def interpolate_def)
next
  case (Some p)
  note p = prev_at_nearest [OF s Some]
  show ?thesis
  proof (cases "next_at ps t")
    case None
    then have "\<forall>q \<in> set ps. \<not> t < fst q"
      using next_at_none [of ps t] by force
    then have "\<not> nearest_after ps t n" for n
      by (auto simp: nearest_after_def)
    with None Some show ?thesis
      by (simp add: interpolation_ok_def interpolate_def)
  next
    case (Some n)
    note n = next_at_nearest [OF s Some t]
    from p n have ord: "fst p < t" "t < fst n"
      by (simp_all add: nearest_before_def nearest_after_def)
    have ex: "\<exists>q \<in> set ps. fst q < t" "\<exists>q \<in> set ps. t < fst q"
      using p n by (auto simp: nearest_before_def nearest_after_def)
    have same: "fst n' - fst p' = fst n - fst p"
      if "nearest_before ps t p'" "nearest_after ps t n'" for p' n'
      using nearest_before_unique [OF that(1) p] nearest_after_unique [OF that(2) n] by simp
    show ?thesis
    proof (cases "interval > 0 \<and> fst n - fst p \<le> interval * OFFLINE_GAP_MULTIPLIER")
      case True
      define r where "r = (t - fst p) / (fst n - fst p)"
      have r: "0 < r" "r < 1" using ord by (simp_all add: r_def)
      have v: "interpolate (prev_at ps t) (next_at ps t) interval t
                 = Some (snd p + r * (snd n - snd p))"
        using True \<open>prev_at ps t = Some p\<close> Some by (simp add: interpolate_def r_def)
      have gap: "fst n - fst p \<le> interval * 1.5"
        using True by (simp add: OFFLINE_GAP_MULTIPLIER_def)
      have "\<exists>p' n'. nearest_before ps t p' \<and> nearest_after ps t n' \<and>
            fst n' - fst p' \<le> interval * 1.5 \<and>
            snd p + r * (snd n - snd p)
              = snd p' + (t - fst p') / (fst n' - fst p') * (snd n' - snd p') \<and>
            min (snd p') (snd n') \<le> snd p + r * (snd n - snd p) \<and>
            snd p + r * (snd n - snd p) \<le> max (snd p') (snd n') \<and>
            (snd p' \<noteq> snd n' \<longrightarrow> min (snd p') (snd n') < snd p + r * (snd n - snd p) \<and>
               snd p + r * (snd n - snd p) < max (snd p') (snd n'))"
        using p n gap lerp_between [OF r, of "snd p" "snd n"]
        by (intro exI [of _ p] exI [of _ n]) (simp add: r_def)
      moreover have "\<not> fst n' - fst p' > interval * 1.5"
        if "nearest_before ps t p'" "nearest_after ps t n'" for p' n'
        using same [OF that] gap by simp
      ultimately show ?thesis
        unfolding interpolation_ok_def v using ex by auto
    next
      case False
      then have v: "interpolate (prev_at ps t) (next_at ps t) interval t = None"
        using \<open>prev_at ps t = Some p\<close> Some by (auto simp: interpolate_def)
      show ?thesis
        unfolding interpolation_ok_def v by simp
    qed
  qed
qed

lemma packet_loss_key_neq: "packet_loss_key n \<noteq> n"
  by (simp add: packet_loss_key_def)

lemma written_other:
  "key \<notin> own_keys item \<Longrightarrow> written item interval t row key = row key"
  by (simp add: written_def own_keys_def)

lemma written_value:
  assumes "row OFFLINE_KEY = Some None" "t \<notin> set (created_at item)"
  shows "written item interval t row (monitor_name item) =
           Some (interpolate (prev_at (validPoints item) t) (next_at (validPoints item) t) interval t)"
  using assms packet_loss_key_neq [of "monitor_name item"]
  by (simp add: written_def)

lemma row_at_formatSeries:
  assumes "sorted_wrt (<) ts"
  shows "row_at (formatSeries item ts observed interval result) observed t =
           (if t \<in> set ts then written item interval t (row_at result observed t)
            else row_at result observed t)"
  by (simp add: row_at_def [of "formatSeries item ts observed interval result"]
      formatSeries_lookup [OF assms]) (simp add: row_at_def)

lemma row_at_fold_formatSeries:
  assumes "sorted_wrt (<) ts"
  shows "keys_free items key \<Longrightarrow>
         row_at (fold (\<lambda>item r. formatSeries item ts observed interval r) items result) observed t key
           = row_at result observed t key"
proof (induction items arbitrary: result)
  case Nil
  then show ?case by simp
next
  case (Cons m items)
  then have k: "key \<notin> own_keys m" and f: "keys_free items key"
    by (simp_all add: keys_free_def)
  have "row_at (formatSeries m ts observed interval result) observed t key
          = row_at result observed t key"
    using k by (simp add: row_at_formatSeries [OF assms] written_other)
  with Cons.IH [OF f, of "formatSeries m ts observed interval result"] show ?case
    by simp
qed

lemma obj_set_keys:
  "map fst (obj_set r k v) = (if k \<in> set (map fst r) then map fst r else map fst r @ [k])"
  by (induction r) (force split: if_splits)+

lemma seriesStep_fst:
  "\<exists>row. fst (seriesStep item observed interval t (result, cur)) = obj_set result t row"
  by (auto simp: seriesStep_def Let_def)

lemma fold_seriesStep_keys:
  "distinct (map fst (fst st)) \<Longrightarrow>
   distinct (map fst (fst (fold (seriesStep item observed interval) ts st))) \<and>
   set (map fst (fst (fold (seriesStep item observed interval) ts st)))
     = set (map fst (fst st)) \<union> set ts"
proof (induction ts arbitrary: st)
  case Nil
  then show ?case by simp
next
  case (Cons a ts)
  obtain result cur where st: "st = (result, cur)" by (cases st)
  obtain row where r: "fst (seriesStep item observed interval a (result, cur)) = obj_set result a row"
    using seriesStep_fst by blast
  from Cons.prems st have d: "distinct (map fst (fst (seriesStep item observed interval a st)))"
    by (simp add: r obj_set_keys)
  have s: "set (map fst (fst (seriesStep item observed interval a st)))
             = insert a (set (map fst (fst st)))"
    unfolding st r obj_set_keys by auto
  from Cons.IH [OF d] s show ?case by auto
qed

lemma formatSeries_keys:
  assumes "distinct (map fst result)"
  shows "distinct (map fst (formatSeries item ts observed interval result))"
    and "set (map fst (formatSeries item ts observed interval result)) = set (map fst result) \<union> set ts"
  using fold_seriesStep_keys [of "(result, 0, None)" item observed interval ts] assms
  by (simp_all add: formatSeries_def)

lemma fold_formatSeries_keys:
  "distinct (map fst result) \<Longrightarrow>
   distinct (map fst (fold (\<lambda>item r. formatSeries item ts observed interval r) items result))"
  by (induction items arbitrary: result) (simp_all add: formatSeries_keys)

lemma result0_distinct:
  "distinct (map fst (fold (\<lambda>time r. obj_set r time (newRow time observed)) ts r0))
     = distinct (map fst r0)"
  by (induction ts arbitrary: r0) (simp_all add: obj_set_keys)

lemma result0_row_at:
  "row_at r0 observed t = newRow t observed \<Longrightarrow>
   row_at (fold (\<lambda>time r. obj_set r time (newRow time observed)) ts r0) observed t
     = newRow t observed"
proof (induction ts arbitrary: r0)
  case Nil
  then show ?case by simp
next
  case (Cons a ts)
  from Cons.prems have "row_at (obj_set r0 a (newRow a observed)) observed t = newRow t observed"
    by (simp add: row_at_def map_of_obj_set)
  then show ?case by (simp add: Cons.IH)
qed

lemma result0_keep:
  "map_of r0 t = Some x \<Longrightarrow>
   \<exists>y. map_of (fold (\<lambda>time r. obj_set r time (newRow time observed)) ts r0) t = Some y"
proof (induction ts arbitrary: r0 x)
  case Nil
  then show ?case by simp
next
  case (Cons a ts)
  from Cons.prems obtain z where "map_of (obj_set r0 a (newRow a observed)) t = Some z"
    by (cases "t = a") (simp_all add: map_of_obj_set)
  from Cons.IH [OF this] show ?case by simp
qed

lemma result0_present:
  "t \<in> set ts \<Longrightarrow>
   \<exists>y. map_of (fold (\<lambda>time r. obj_set r time (newRow time observed)) ts r0) t = Some y"
proof (induction ts arbitrary: r0)
  case Nil
  then show ?case by simp
next
  case (Cons a ts)
  show ?case
  proof (cases "t = a")
    case True
    have "map_of (obj_set r0 a (newRow a observed)) a = Some (newRow a observed)"
      by (simp add: map_of_obj_set)
    from result0_keep [OF this, of observed ts] True show ?thesis by simp
  next
    case False
    with Cons.prems have "t \<in> set ts" by simp
    from Cons.IH [OF this] show ?thesis by simp
  qed
qed

lemma fold_formatSeries_present:
  assumes "sorted_wrt (<) ts"
  shows "map_of result t = Some x \<Longrightarrow>
         \<exists>y. map_of (fold (\<lambda>item r. formatSeries item ts observed interval r) items result) t = Some y"
proof (induction items arbitrary: result x)
  case Nil
  then show ?case by simp
next
  case (Cons m items)
  from Cons.prems obtain y where "map_of (formatSeries m ts observed interval result) t = Some y"
    by (cases "t \<in> set ts") (simp_all add: formatSeries_lookup [OF assms])
  from Cons.IH [OF this] show ?case by simp
qed

text \<open>
  C1, amended. Let the timeline be strictly ascending, let the series have its timestamps
  in ascending order, and let no series write the key \<open>created_at\<close>, no earlier series
  the offline key, and no later series the name of this one. Then for every timestamp
  \<open>t\<close> of the timeline that is observed (not a synthetic offline point) and not a sample
  of the series, the formatter emits exactly one row for \<open>t\<close>, and its value for the
  series is as follows. If it is a number, it is the linear interpolation at \<open>t\<close> between
  a nearest valid point before \<open>t\<close> and a nearest valid point after \<open>t\<close>, which are at
  most 1.5 times the interval apart; it lies between their two values, and strictly
  between them when the two values differ. It is \<open>null\<close> whenever the nearest valid points
  are more than 1.5 times the interval apart, or there is no valid point before \<open>t\<close> or
  none after \<open>t\<close>.
\<close>

theorem formatData_interpolation:
  assumes tl: "sorted_wrt (<) ts"
    and raw: "rawData = before @ item # after"
    and k1: "keys_free rawData ''created_at''"
    and k2: "keys_free before OFFLINE_KEY"
    and k3: "keys_free after (monitor_name item)"
    and so: "sorted (created_at item)"
    and t: "t \<in> set ts" "t \<in> set observed" "t \<notin> set (created_at item)"
  shows "\<exists>row v. row \<in> set (formatData rawData ts observed interval) \<and>
           row ''created_at'' = Some (Some t) \<and>
           (\<forall>r \<in> set (formatData rawData ts observed interval).
              r ''created_at'' = Some (Some t) \<longrightarrow> r = row) \<and>
           row (monitor_name item) = Some v \<and>
           interpolation_ok (validPoints item) interval t v"
proof -
  define r0 where "r0 = fold (\<lambda>time r. obj_set r time (newRow time observed)) ts []"
  define rb where "rb = fold (\<lambda>item r. formatSeries item ts observed interval r) before r0"
  define ri where "ri = formatSeries item ts observed interval rb"
  define rf where "rf = fold (\<lambda>item r. formatSeries item ts observed interval r) after ri"
  have rf_all: "rf = fold (\<lambda>item r. formatSeries item ts observed interval r) rawData r0"
    by (simp add: rf_def ri_def rb_def raw)
  have out: "set (formatData rawData ts observed interval) = snd ` set rf"
    by (simp add: formatData_def Let_def rf_all r0_def)
  have d0: "distinct (map fst r0)"
    by (simp add: r0_def result0_distinct)
  have df: "distinct (map fst rf)"
    unfolding rf_all using d0 by (rule fold_formatSeries_keys)
  have row0: "row_at r0 observed k = newRow k observed" for k
    unfolding r0_def by (rule result0_row_at) (simp add: row_at_def)
  have created: "row_at rf observed k ''created_at'' = Some (Some k)" for k
    unfolding rf_all
    by (simp add: row_at_fold_formatSeries [OF tl k1] row0 newRow_def OFFLINE_KEY_def)
  have entry: "r = row_at rf observed k" if "(k, r) \<in> set rf" for k r
    using that df by (simp add: row_at_def)
  obtain x0 where "map_of r0 t = Some x0"
    using result0_present [OF t(1), of observed "[]"] by (auto simp: r0_def)
  then obtain row where row: "map_of rf t = Some row"
    unfolding rf_all using fold_formatSeries_present [OF tl] by blast
  then have mem: "(t, row) \<in> set rf" by (rule map_of_SomeD)
  then have rowe: "row = row_at rf observed t" by (rule entry)
  have c: "row ''created_at'' = Some (Some t)"
    unfolding rowe by (rule created)
  have u: "r = row" if "r \<in> set (formatData rawData ts observed interval)"
    "r ''created_at'' = Some (Some t)" for r
  proof -
    from that(1) out obtain k where k: "(k, r) \<in> set rf" by auto
    then have e: "r = row_at rf observed k" by (rule entry)
    with that(2) created [of k] have "k = t" by simp
    with e rowe show ?thesis by simp
  qed
  have off: "row_at rb observed t OFFLINE_KEY = Some None"
    unfolding rb_def using t(2)
    by (simp add: row_at_fold_formatSeries [OF tl k2] row0 newRow_def)
  have "row (monitor_name item) = row_at ri observed t (monitor_name item)"
    unfolding rowe rf_def by (rule row_at_fold_formatSeries [OF tl k3])
  also have "\<dots> = written item interval t (row_at rb observed t) (monitor_name item)"
    unfolding ri_def using t(1) by (simp add: row_at_formatSeries [OF tl])
  also have "\<dots> = Some (interpolate (prev_at (validPoints item) t)
                              (next_at (validPoints item) t) interval t)"
    using off t(3) by (rule written_value)
  finally have v: "row (monitor_name item) =
      Some (interpolate (prev_at (validPoints item) t) (next_at (validPoints item) t) interval t)" .
  have "t \<notin> fst ` set (validPoints item)"
    using validPoints_times [of item] t(3) by blast
  with sorted_validPoints [OF so]
  have ok: "interpolation_ok (validPoints item) interval t
      (interpolate (prev_at (validPoints item) t) (next_at (validPoints item) t) interval t)"
    by (rule interpolate_ok)
  from mem out have "row \<in> set (formatData rawData ts observed interval)"
    by force
  with c u v ok show ?thesis by blast
qed

lemma demo_timeline:
  "buildTimelineData [flat_a, mid_b] 0 1000 =
     \<lparr>timeline = [0, 500, 1000], offlineSpans = [], observedSet = [0, 1000, 500],
      intervalMs = 1000\<rparr>"
  by (simp add: timeline_eval flat_a_def mid_b_def Let_def)

text \<open>
  C1, as stated, fails: between two samples of the same value 10, at a timestamp that
  another series observed, the formatter emits 10, which is not strictly between 10
  and 10.
\<close>

theorem formatData_not_strict_counterexample:
  "(let td = buildTimelineData [flat_a, mid_b] 0 1000
    in map (\<lambda>r. (r ''created_at'', r OFFLINE_KEY, r ''a''))
         (formatData [flat_a, mid_b] (timeline td) (observedSet td) (intervalMs td)))
     = [(Some (Some 0), Some None, Some (Some 10)),
        (Some (Some 500), Some None, Some (Some 10)),
        (Some (Some 1000), Some None, Some (Some 10))] \<and>
   validPoints flat_a = [(0, 10), (1000, 10)] \<and>
   \<not> (10 < (10 :: real))"
  unfolding demo_timeline Let_def
  by (simp add: format_eval flat_a_def mid_b_def Let_def upt_rec)

theorem formatData_interpolation_witness:
  "(\<exists>row v. row \<in> set (formatData [rise_a, mid_b] [0, 500, 1000] [0, 1000, 500] 1000) \<and>
       row ''created_at'' = Some (Some 500) \<and>
       row ''a'' = Some v \<and>
       interpolation_ok (validPoints rise_a) 1000 500 v) \<and>
   map (\<lambda>r. (r ''created_at'', r OFFLINE_KEY, r ''a''))
     (formatData [rise_a, mid_b] [0, 500, 1000] [0, 1000, 500] 1000)
     = [(Some (Some 0), Some None, Some (Some 10)),
        (Some (Some 500), Some None, Some (Some 15)),
        (Some (Some 1000), Some None, Some (Some 20))]"
proof -
  have h: "sorted_wrt (<) [0, 500, 1000 :: real]"
    "[rise_a, mid_b] = [] @ rise_a # [mid_b]"
    "keys_free [rise_a, mid_b] ''created_at''"
    "keys_free [] OFFLINE_KEY"
    "keys_free [mid_b] (monitor_name rise_a)"
    "sorted (created_at rise_a)"
    "(500 :: real) \<in> set [0, 500, 1000]" "(500 :: real) \<in> set [0, 1000, 500]"
    "500 \<notin> set (created_at rise_a)"
    by (simp_all add: keys_free_def own_keys_def packet_loss_key_def rise_a_def mid_b_def)
  have n: "monitor_name rise_a = ''a''" by (simp add: rise_a_def)
  have "\<exists>row v. row \<in> set (formatData [rise_a, mid_b] [0, 500, 1000] [0, 1000, 500] 1000) \<and>
       row ''created_at'' = Some (Some 500) \<and>
       row ''a'' = Some v \<and>
       interpolation_ok (validPoints rise_a) 1000 500 v"
    using formatData_interpolation [OF h, of 1000] unfolding n by blast
  moreover have "map (\<lambda>r. (r ''created_at'', r OFFLINE_KEY, r ''a''))
     (formatData [rise_a, mid_b] [0, 500, 1000] [0, 1000, 500] 1000)
     = [(Some (Some 0), Some None, Some (Some 10)),
        (Some (Some 500), Some None, Some (Some 15)),
        (Some (Some 1000), Some None, Some (Some 20))]"
    by (simp add: format_eval rise_a_def mid_b_def Let_def upt_rec)
  ultimately show ?thesis by blast
qed

end
